theory Spec2Isabelle
  imports Main "HOL-Library.Word" "HOL-Library.Char_ord" "HOL-Library.List_Lexorder"
begin

unbundle bit_operations_syntax

section \<open>Tag types and the tag tree\<close>

text \<open>
  The enumeration \<^verbatim>\<open>TagType\<close> of \<^verbatim>\<open>nbt_editor.cpp\<close>, in declaration order. \<^verbatim>\<open>INT\<close> is
  written \<open>INT_TAG\<close>, since \<open>INT\<close> is a binder of the logic.
\<close>

datatype TagType = END | BYTE | SHORT | INT_TAG | LONG | FLOAT | DOUBLE | BYTE_ARRAY | STRING
  | LIST | COMPOUND | INT_ARRAY | LONG_ARRAY

text \<open>
  \<^verbatim>\<open>struct NBTValue\<close> is not a union: it carries every payload field at once, next to its
  own copy of the tag type. The fixed-width integers are words; \<^verbatim>\<open>float\<close> and \<^verbatim>\<open>double\<close>
  are kept as their IEEE-754 bit patterns (the value \<^verbatim>\<open>memcpy\<close> moves in \<^verbatim>\<open>readFloat\<close> and
  \<^verbatim>\<open>writeFloat\<close>). The type parameter stands for the pointee of the
  \<^verbatim>\<open>shared_ptr<NBTTag>\<close> children.

  \<^verbatim>\<open>compoundVal\<close> is a \<^verbatim>\<open>std::map<std::string, ...>\<close>: its entries are kept as an association
  list in strictly ascending key order, which is the order in which a \<^verbatim>\<open>std::map\<close> is
  iterated. \<^verbatim>\<open>std::string\<close> compares bytes as unsigned values, lexicographically; that is
  the order of \<^typ>\<open>string\<close> here.
\<close>

datatype 'a NBTValue = NBTValue
  (vtype: TagType) (byteVal: "8 word") (shortVal: "16 word") (intVal: "32 word")
  (longVal: "64 word") (floatVal: "32 word") (doubleVal: "64 word") (stringVal: string)
  (byteArrayVal: "8 word list") (intArrayVal: "32 word list") (longArrayVal: "64 word list")
  (listVal: "'a list") (compoundVal: "(string \<times> 'a) list")

text \<open>\<^verbatim>\<open>class NBTTag\<close>; its field \<^verbatim>\<open>value\<close> is written \<open>value'\<close>.\<close>

datatype NBTTag = NBTTag (type: TagType) (name: string) (value': "NBTTag NBTValue")

text \<open>The constructors \<^verbatim>\<open>NBTValue(TagType t)\<close> and \<^verbatim>\<open>NBTTag(TagType t, const std::string& n)\<close>.\<close>

definition new_NBTValue :: "TagType \<Rightarrow> 'a NBTValue" where
  "new_NBTValue t = NBTValue t 0 0 0 0 0 0 [] [] [] [] [] []"

definition new_NBTTag :: "TagType \<Rightarrow> string \<Rightarrow> NBTTag" where
  "new_NBTTag t n = NBTTag t n (new_NBTValue t)"

text \<open>Assignments to single fields.\<close>

definition set_byteVal :: "8 word \<Rightarrow> 'a NBTValue \<Rightarrow> 'a NBTValue" where
  "set_byteVal x v = NBTValue (vtype v) x (shortVal v) (intVal v) (longVal v) (floatVal v)
     (doubleVal v) (stringVal v) (byteArrayVal v) (intArrayVal v) (longArrayVal v) (listVal v)
     (compoundVal v)"

definition set_shortVal :: "16 word \<Rightarrow> 'a NBTValue \<Rightarrow> 'a NBTValue" where
  "set_shortVal x v = NBTValue (vtype v) (byteVal v) x (intVal v) (longVal v) (floatVal v)
     (doubleVal v) (stringVal v) (byteArrayVal v) (intArrayVal v) (longArrayVal v) (listVal v)
     (compoundVal v)"

definition set_intVal :: "32 word \<Rightarrow> 'a NBTValue \<Rightarrow> 'a NBTValue" where
  "set_intVal x v = NBTValue (vtype v) (byteVal v) (shortVal v) x (longVal v) (floatVal v)
     (doubleVal v) (stringVal v) (byteArrayVal v) (intArrayVal v) (longArrayVal v) (listVal v)
     (compoundVal v)"

definition set_longVal :: "64 word \<Rightarrow> 'a NBTValue \<Rightarrow> 'a NBTValue" where
  "set_longVal x v = NBTValue (vtype v) (byteVal v) (shortVal v) (intVal v) x (floatVal v)
     (doubleVal v) (stringVal v) (byteArrayVal v) (intArrayVal v) (longArrayVal v) (listVal v)
     (compoundVal v)"

definition set_floatVal :: "32 word \<Rightarrow> 'a NBTValue \<Rightarrow> 'a NBTValue" where
  "set_floatVal x v = NBTValue (vtype v) (byteVal v) (shortVal v) (intVal v) (longVal v) x
     (doubleVal v) (stringVal v) (byteArrayVal v) (intArrayVal v) (longArrayVal v) (listVal v)
     (compoundVal v)"

definition set_doubleVal :: "64 word \<Rightarrow> 'a NBTValue \<Rightarrow> 'a NBTValue" where
  "set_doubleVal x v = NBTValue (vtype v) (byteVal v) (shortVal v) (intVal v) (longVal v)
     (floatVal v) x (stringVal v) (byteArrayVal v) (intArrayVal v) (longArrayVal v) (listVal v)
     (compoundVal v)"

definition set_stringVal :: "string \<Rightarrow> 'a NBTValue \<Rightarrow> 'a NBTValue" where
  "set_stringVal x v = NBTValue (vtype v) (byteVal v) (shortVal v) (intVal v) (longVal v)
     (floatVal v) (doubleVal v) x (byteArrayVal v) (intArrayVal v) (longArrayVal v) (listVal v)
     (compoundVal v)"

definition set_listVal :: "'a list \<Rightarrow> 'a NBTValue \<Rightarrow> 'a NBTValue" where
  "set_listVal x v = NBTValue (vtype v) (byteVal v) (shortVal v) (intVal v) (longVal v)
     (floatVal v) (doubleVal v) (stringVal v) (byteArrayVal v) (intArrayVal v) (longArrayVal v) x
     (compoundVal v)"

definition set_compoundVal :: "(string \<times> 'a) list \<Rightarrow> 'a NBTValue \<Rightarrow> 'a NBTValue" where
  "set_compoundVal x v = NBTValue (vtype v) (byteVal v) (shortVal v) (intVal v) (longVal v)
     (floatVal v) (doubleVal v) (stringVal v) (byteArrayVal v) (intArrayVal v) (longArrayVal v)
     (listVal v) x"

definition set_name :: "string \<Rightarrow> NBTTag \<Rightarrow> NBTTag" where
  "set_name n tag = NBTTag (type tag) n (value' tag)"

definition map_value :: "(NBTTag NBTValue \<Rightarrow> NBTTag NBTValue) \<Rightarrow> NBTTag \<Rightarrow> NBTTag" where
  "map_value f tag = NBTTag (type tag) (name tag) (f (value' tag))"

subsection \<open>The operations of \<^verbatim>\<open>std::map\<close> and \<^verbatim>\<open>std::vector\<close> the program uses\<close>

text \<open>\<^verbatim>\<open>m[k] = v\<close>: the entry of key \<open>k\<close> is replaced, or a new one is inserted at its place
  in the key order.\<close>

fun map_assign :: "string \<Rightarrow> 'a \<Rightarrow> (string \<times> 'a) list \<Rightarrow> (string \<times> 'a) list" where
  "map_assign k v [] = [(k, v)]"
| "map_assign k v ((k', v') # m) =
     (if k < k' then (k, v) # (k', v') # m
      else if k = k' then (k, v) # m
      else (k', v') # map_assign k v m)"

text \<open>A change made through \<^verbatim>\<open>m[k]->...\<close> to the pointee stored under an existing key.\<close>

fun map_modify :: "string \<Rightarrow> ('a \<Rightarrow> 'a) \<Rightarrow> (string \<times> 'a) list \<Rightarrow> (string \<times> 'a) list" where
  "map_modify k f [] = []"
| "map_modify k f ((k', v') # m) =
     (if k' = k then (k', f v') # m else (k', v') # map_modify k f m)"

definition compound_assign :: "string \<Rightarrow> NBTTag \<Rightarrow> NBTTag \<Rightarrow> NBTTag" where
  "compound_assign k c tag =
     map_value (\<lambda>v. set_compoundVal (map_assign k c (compoundVal v)) v) tag"

definition compound_modify :: "string \<Rightarrow> (NBTTag \<Rightarrow> NBTTag) \<Rightarrow> NBTTag \<Rightarrow> NBTTag" where
  "compound_modify k f tag =
     map_value (\<lambda>v. set_compoundVal (map_modify k f (compoundVal v)) v) tag"

definition list_push_back :: "NBTTag \<Rightarrow> NBTTag \<Rightarrow> NBTTag" where
  "list_push_back c tag = map_value (\<lambda>v. set_listVal (listVal v @ [c]) v) tag"

definition list_modify :: "nat \<Rightarrow> (NBTTag \<Rightarrow> NBTTag) \<Rightarrow> NBTTag \<Rightarrow> NBTTag" where
  "list_modify i f tag =
     map_value (\<lambda>v. set_listVal ((listVal v)[i := f (listVal v ! i)]) v) tag"

subsection \<open>Pointers into the tree\<close>

text \<open>
  Every node the program creates (\<^verbatim>\<open>std::make_shared\<close> in \<^verbatim>\<open>load\<close> and \<^verbatim>\<open>addTag\<close>) is stored
  in exactly one collection of exactly one parent, so the object graph below the root is a
  tree, and a \<^verbatim>\<open>shared_ptr<NBTTag>\<close> into it is identified with the access path from the
  root: a key of \<^verbatim>\<open>compoundVal\<close> or an index of \<^verbatim>\<open>listVal\<close> at each level. The empty path is the
  root itself, so \<^verbatim>\<open>selectedTag != nbtFile.getRoot()\<close> is \<open>p \<noteq> []\<close>. Keys, not names, locate
  a child: a node's \<^verbatim>\<open>name\<close> field can change while the key it is stored under stays.
\<close>

datatype step = Key string | Idx nat

type_synonym ptr = "step list"

fun child :: "NBTTag \<Rightarrow> step \<Rightarrow> NBTTag option" where
  "child tag (Key k) = map_of (compoundVal (value' tag)) k"
| "child tag (Idx i) =
     (if i < length (listVal (value' tag)) then Some (listVal (value' tag) ! i) else None)"

text \<open>\<open>deref root p\<close>: the node \<open>p\<close> points to.\<close>

fun deref :: "NBTTag \<Rightarrow> ptr \<Rightarrow> NBTTag option" where
  "deref tag [] = Some tag"
| "deref tag (s # p) = (case child tag s of None \<Rightarrow> None | Some c \<Rightarrow> deref c p)"

text \<open>\<open>update p f root\<close>: the tree after the node \<open>p\<close> points to has been changed by \<open>f\<close>
  through the pointer.\<close>

fun update :: "ptr \<Rightarrow> (NBTTag \<Rightarrow> NBTTag) \<Rightarrow> NBTTag \<Rightarrow> NBTTag" where
  "update [] f tag = f tag"
| "update (Key k # p) f tag = compound_modify k (update p f) tag"
| "update (Idx i # p) f tag =
     (if i < length (listVal (value' tag)) then list_modify i (update p f) tag else tag)"

section \<open>Text conversions\<close>

text \<open>The exceptions of \<^verbatim>\<open>std::stoi\<close>, \<^verbatim>\<open>std::stoll\<close>, \<^verbatim>\<open>std::stof\<close> and \<^verbatim>\<open>std::stod\<close>.\<close>

datatype exn = invalid_argument | out_of_range

text \<open>\<^verbatim>\<open>std::to_string\<close> on the integer types: the decimal numeral, with a minus sign.\<close>

definition digit_char :: "nat \<Rightarrow> char" where
  "digit_char d = char_of (48 + d)"

function digits :: "nat \<Rightarrow> string" where
  "digits n = (if n < 10 then [digit_char n] else digits (n div 10) @ [digit_char (n mod 10)])"
  by pat_completeness auto
termination
  by (relation "measure id") auto

declare digits.simps [simp del]

definition to_string :: "int \<Rightarrow> string" where
  "to_string i = (if i < 0 then CHR ''-'' # digits (nat (- i)) else digits (nat i))"

text \<open>
  \<^verbatim>\<open>std::stoi\<close> and \<^verbatim>\<open>std::stoll\<close> call \<^verbatim>\<open>strtol\<close> and \<^verbatim>\<open>strtoll\<close> in base 10: leading white space
  is skipped, one sign is accepted, the longest run of digits is read and whatever follows
  is ignored. No digit at all raises \<^verbatim>\<open>std::invalid_argument\<close>; a value outside the result
  type raises \<^verbatim>\<open>std::out_of_range\<close>.
\<close>

definition isspace :: "char \<Rightarrow> bool" where
  "isspace c = (c \<in> set [CHR '' '', CHR 0x09, CHR 0x0A, CHR 0x0B, CHR 0x0C, CHR 0x0D])"

definition isdigit :: "char \<Rightarrow> bool" where
  "isdigit c = (48 \<le> (of_char c :: nat) \<and> (of_char c :: nat) \<le> 57)"

definition digit_val :: "char \<Rightarrow> nat" where
  "digit_val c = of_char c - 48"

definition digits_val :: "string \<Rightarrow> nat" where
  "digits_val ds = foldl (\<lambda>a c. 10 * a + digit_val c) 0 ds"

definition strtol :: "string \<Rightarrow> int option" where
  "strtol str =
     (let s = dropWhile isspace str;
          neg = (s \<noteq> [] \<and> hd s = CHR ''-'');
          s = (if s \<noteq> [] \<and> (hd s = CHR ''-'' \<or> hd s = CHR ''+'') then tl s else s);
          ds = takeWhile isdigit s
      in if ds = [] then None
         else Some (if neg then - int (digits_val ds) else int (digits_val ds)))"

definition stoi :: "string \<Rightarrow> exn + int" where
  "stoi str =
     (case strtol str of
        None \<Rightarrow> Inl invalid_argument
      | Some n \<Rightarrow> if n < - (2 ^ 31) \<or> 2 ^ 31 - 1 < n then Inl out_of_range else Inr n)"

definition stoll :: "string \<Rightarrow> exn + int" where
  "stoll str =
     (case strtol str of
        None \<Rightarrow> Inl invalid_argument
      | Some n \<Rightarrow> if n < - (2 ^ 63) \<or> 2 ^ 63 - 1 < n then Inl out_of_range else Inr n)"

text \<open>
  The conversions between text and floating-point values belong to the C++ library and
  are not part of the program; they are parameters of the model. \<open>stof\<close> and \<open>stod\<close> return
  the bit pattern of the parsed value, or the exception they raise.
\<close>

record fp_text =
  stof :: "string \<Rightarrow> exn + 32 word"
  stod :: "string \<Rightarrow> exn + 64 word"
  float_to_string :: "32 word \<Rightarrow> string"
  double_to_string :: "64 word \<Rightarrow> string"

text \<open>\<^verbatim>\<open>NBTValue::toString\<close>.\<close>

definition NBTValue_toString :: "fp_text \<Rightarrow> 'a NBTValue \<Rightarrow> string" where
  "NBTValue_toString fp v =
     (case vtype v of
        BYTE \<Rightarrow> to_string (sint (byteVal v))
      | SHORT \<Rightarrow> to_string (sint (shortVal v))
      | INT_TAG \<Rightarrow> to_string (sint (intVal v))
      | LONG \<Rightarrow> to_string (sint (longVal v)) @ ''L''
      | FLOAT \<Rightarrow> float_to_string fp (floatVal v) @ ''f''
      | DOUBLE \<Rightarrow> double_to_string fp (doubleVal v)
      | STRING \<Rightarrow> [CHR 0x22] @ stringVal v @ [CHR 0x22]
      | BYTE_ARRAY \<Rightarrow> ''['' @ to_string (int (length (byteArrayVal v))) @ '' bytes]''
      | INT_ARRAY \<Rightarrow> ''['' @ to_string (int (length (intArrayVal v))) @ '' ints]''
      | LONG_ARRAY \<Rightarrow> ''['' @ to_string (int (length (longArrayVal v))) @ '' longs]''
      | LIST \<Rightarrow> ''['' @ to_string (int (length (listVal v))) @ '' items]''
      | COMPOUND \<Rightarrow> ''{'' @ to_string (int (length (compoundVal v))) @ '' entries}''
      | END \<Rightarrow> [])"

text \<open>
  \<^verbatim>\<open>NBTTag::setValueFromString\<close>. The \<^verbatim>\<open>static_cast\<close> to \<^verbatim>\<open>int8_t\<close> and \<^verbatim>\<open>int16_t\<close> keeps the low
  bits of the parsed \<^verbatim>\<open>int\<close>. An exception of the parser leaves the tag as it was.
\<close>

definition setValueFromString :: "fp_text \<Rightarrow> string \<Rightarrow> NBTTag \<Rightarrow> exn + NBTTag" where
  "setValueFromString fp str tag =
     (case type tag of
        BYTE \<Rightarrow> (case stoi str of Inl x \<Rightarrow> Inl x
                 | Inr n \<Rightarrow> Inr (map_value (set_byteVal (word_of_int n)) tag))
      | SHORT \<Rightarrow> (case stoi str of Inl x \<Rightarrow> Inl x
                 | Inr n \<Rightarrow> Inr (map_value (set_shortVal (word_of_int n)) tag))
      | INT_TAG \<Rightarrow> (case stoi str of Inl x \<Rightarrow> Inl x
                 | Inr n \<Rightarrow> Inr (map_value (set_intVal (word_of_int n)) tag))
      | LONG \<Rightarrow> (case stoll str of Inl x \<Rightarrow> Inl x
                 | Inr n \<Rightarrow> Inr (map_value (set_longVal (word_of_int n)) tag))
      | FLOAT \<Rightarrow> (case stof fp str of Inl x \<Rightarrow> Inl x
                 | Inr w \<Rightarrow> Inr (map_value (set_floatVal w) tag))
      | DOUBLE \<Rightarrow> (case stod fp str of Inl x \<Rightarrow> Inl x
                 | Inr w \<Rightarrow> Inr (map_value (set_doubleVal w) tag))
      | STRING \<Rightarrow> Inr (map_value (set_stringVal str) tag)
      | _ \<Rightarrow> Inr tag)"

section \<open>Reading and writing integers\<close>

text \<open>
  A stream is the list of its bytes: for an \<^verbatim>\<open>ifstream\<close> the bytes not yet read, for an
  \<^verbatim>\<open>ofstream\<close> the bytes written so far. \<^verbatim>\<open>file.read\<close> and \<^verbatim>\<open>file.write\<close> copy the object
  representation of the integer, which on the little-endian machines the program is built
  for starts with the least significant byte. A read that finds too few bytes leaves the
  variable unset; the model returns \<open>None\<close> there.
\<close>

definition mem_of_int32 :: "32 word \<Rightarrow> 8 word list" where
  "mem_of_int32 w = [ucast w, ucast (drop_bit 8 w), ucast (drop_bit 16 w), ucast (drop_bit 24 w)]"

definition int32_of_mem :: "8 word list \<Rightarrow> 32 word" where
  "int32_of_mem bs = ucast (bs ! 0) OR push_bit 8 (ucast (bs ! 1)) OR push_bit 16 (ucast (bs ! 2))
     OR push_bit 24 (ucast (bs ! 3))"

definition mem_of_int64 :: "64 word \<Rightarrow> 8 word list" where
  "mem_of_int64 w = [ucast w, ucast (drop_bit 8 w), ucast (drop_bit 16 w), ucast (drop_bit 24 w),
     ucast (drop_bit 32 w), ucast (drop_bit 40 w), ucast (drop_bit 48 w), ucast (drop_bit 56 w)]"

definition int64_of_mem :: "8 word list \<Rightarrow> 64 word" where
  "int64_of_mem bs = ucast (bs ! 0) OR push_bit 8 (ucast (bs ! 1)) OR push_bit 16 (ucast (bs ! 2))
     OR push_bit 24 (ucast (bs ! 3)) OR push_bit 32 (ucast (bs ! 4)) OR push_bit 40 (ucast (bs ! 5))
     OR push_bit 48 (ucast (bs ! 6)) OR push_bit 56 (ucast (bs ! 7))"

text \<open>
  The byte swaps, operator by operator. The operands of \<^verbatim>\<open>&\<close> are signed, so \<^verbatim>\<open>>>\<close> is the
  arithmetic shift, except in the last term of each expression: the literals
  \<^verbatim>\<open>0xFF000000\<close> and \<^verbatim>\<open>0xFF00000000000000LL\<close> do not fit the signed type, so they are unsigned,
  the conjunction is unsigned and its \<^verbatim>\<open>>>\<close> is the logical shift.
\<close>

text \<open>The two expressions on their own, as functions of \<^verbatim>\<open>value\<close>.\<close>

definition swap32 :: "32 word \<Rightarrow> 32 word" where
  "swap32 v = push_bit 24 (v AND 0xFF) OR push_bit 8 (v AND 0xFF00)
     OR signed_drop_bit 8 (v AND 0xFF0000) OR drop_bit 24 (v AND 0xFF000000)"

definition swap64 :: "64 word \<Rightarrow> 64 word" where
  "swap64 v = push_bit 56 (v AND 0xFF) OR push_bit 40 (v AND 0xFF00)
     OR push_bit 24 (v AND 0xFF0000) OR push_bit 8 (v AND 0xFF000000)
     OR signed_drop_bit 8 (v AND 0xFF00000000) OR signed_drop_bit 24 (v AND 0xFF0000000000)
     OR signed_drop_bit 40 (v AND 0xFF000000000000) OR drop_bit 56 (v AND 0xFF00000000000000)"

definition readInt :: "8 word list \<Rightarrow> (32 word \<times> 8 word list) option" where
  "readInt file =
     (if length file < 4 then None
      else let val = int32_of_mem (take 4 file)
           in Some (push_bit 24 (val AND 0xFF) OR push_bit 8 (val AND 0xFF00)
                    OR signed_drop_bit 8 (val AND 0xFF0000) OR drop_bit 24 (val AND 0xFF000000),
                    drop 4 file))"

definition writeInt :: "8 word list \<Rightarrow> 32 word \<Rightarrow> 8 word list" where
  "writeInt file val =
     (let beValue = push_bit 24 (val AND 0xFF) OR push_bit 8 (val AND 0xFF00)
                    OR signed_drop_bit 8 (val AND 0xFF0000) OR drop_bit 24 (val AND 0xFF000000)
      in file @ mem_of_int32 beValue)"

definition readLong :: "8 word list \<Rightarrow> (64 word \<times> 8 word list) option" where
  "readLong file =
     (if length file < 8 then None
      else let val = int64_of_mem (take 8 file)
           in Some (push_bit 56 (val AND 0xFF) OR push_bit 40 (val AND 0xFF00)
                    OR push_bit 24 (val AND 0xFF0000) OR push_bit 8 (val AND 0xFF000000)
                    OR signed_drop_bit 8 (val AND 0xFF00000000)
                    OR signed_drop_bit 24 (val AND 0xFF0000000000)
                    OR signed_drop_bit 40 (val AND 0xFF000000000000)
                    OR drop_bit 56 (val AND 0xFF00000000000000),
                    drop 8 file))"

definition writeLong :: "8 word list \<Rightarrow> 64 word \<Rightarrow> 8 word list" where
  "writeLong file val =
     (let beValue = push_bit 56 (val AND 0xFF) OR push_bit 40 (val AND 0xFF00)
                    OR push_bit 24 (val AND 0xFF0000) OR push_bit 8 (val AND 0xFF000000)
                    OR signed_drop_bit 8 (val AND 0xFF00000000)
                    OR signed_drop_bit 24 (val AND 0xFF0000000000)
                    OR signed_drop_bit 40 (val AND 0xFF000000000000)
                    OR drop_bit 56 (val AND 0xFF00000000000000)
      in file @ mem_of_int64 beValue)"

section \<open>\<^verbatim>\<open>NBTFile\<close>\<close>

record NBTFile =
  filename :: string
  rootTag :: "NBTTag option"
  compressed :: bool

text \<open>\<^verbatim>\<open>NBTFile(fname)\<close>, with the default \<^verbatim>\<open>isCompressed = true\<close>.\<close>

definition new_NBTFile :: "string \<Rightarrow> NBTFile" where
  "new_NBTFile fname = \<lparr>filename = fname, rootTag = None, compressed = True\<rparr>"

text \<open>
  \<^verbatim>\<open>NBTFile::load\<close>, statement by statement. It opens no file: the tree it builds is the
  same whatever \<^verbatim>\<open>filename\<close> names. A child is handed to its parent only after the last
  change made to it, so building the children as values gives the tree the pointers give.
  The floating-point constants are \<^verbatim>\<open>20.0f\<close>, \<^verbatim>\<open>100.5\<close>, \<^verbatim>\<open>64.0\<close> and \<^verbatim>\<open>-200.75\<close>.
\<close>

definition load :: "NBTFile \<Rightarrow> bool \<times> NBTFile" where
  "load file =
     (let root = new_NBTTag COMPOUND ''root'';

          nameTag = new_NBTTag STRING ''name'';
          nameTag = map_value (set_stringVal ''Test Player'') nameTag;
          root = compound_assign ''name'' nameTag root;

          healthTag = new_NBTTag FLOAT ''health'';
          healthTag = map_value (set_floatVal 0x41A00000) healthTag;
          root = compound_assign ''health'' healthTag root;

          posTag = new_NBTTag LIST ''position'';
          posTag = list_push_back (new_NBTTag DOUBLE []) posTag;
          posTag = list_push_back (new_NBTTag DOUBLE []) posTag;
          posTag = list_push_back (new_NBTTag DOUBLE []) posTag;
          posTag = list_modify 0 (map_value (set_doubleVal 0x4059200000000000)) posTag;
          posTag = list_modify 1 (map_value (set_doubleVal 0x4050000000000000)) posTag;
          posTag = list_modify 2 (map_value (set_doubleVal 0xC069180000000000)) posTag;
          root = compound_assign ''position'' posTag root;

          inventoryTag = new_NBTTag COMPOUND ''inventory'';
          itemsTag = new_NBTTag LIST ''items'';

          item1 = new_NBTTag COMPOUND [];
          item1 = compound_assign ''id'' (new_NBTTag SHORT ''id'') item1;
          item1 = compound_modify ''id'' (map_value (set_shortVal 276)) item1;
          item1 = compound_assign ''count'' (new_NBTTag BYTE ''count'') item1;
          item1 = compound_modify ''count'' (map_value (set_byteVal 1)) item1;
          itemsTag = list_push_back item1 itemsTag;

          item2 = new_NBTTag COMPOUND [];
          item2 = compound_assign ''id'' (new_NBTTag SHORT ''id'') item2;
          item2 = compound_modify ''id'' (map_value (set_shortVal 264)) item2;
          item2 = compound_assign ''count'' (new_NBTTag BYTE ''count'') item2;
          item2 = compound_modify ''count'' (map_value (set_byteVal 5)) item2;
          itemsTag = list_push_back item2 itemsTag;

          inventoryTag = compound_assign ''items'' itemsTag inventoryTag;
          root = compound_assign ''inventory'' inventoryTag root
      in (True, file\<lparr>rootTag := Some root\<rparr>))"

text \<open>\<^verbatim>\<open>NBTFile::save\<close>: nothing is written and nothing changes.\<close>

definition save :: "NBTFile \<Rightarrow> bool \<times> NBTFile" where
  "save file = (True, file)"

definition setRoot :: "NBTTag option \<Rightarrow> NBTFile \<Rightarrow> NBTFile" where
  "setRoot root file = file\<lparr>rootTag := root\<rparr>"

section \<open>\<^verbatim>\<open>NBTEditor\<close>\<close>

text \<open>
  \<^verbatim>\<open>class NBTEditor\<close>. The \<^verbatim>\<open>int\<close> fields are integers: they count rows of the projection and
  stay far from the limits of \<^verbatim>\<open>int\<close>.
\<close>

record NBTEditor =
  nbtFile :: NBTFile
  currentRow :: int
  scrollOffset :: int
  maxVisibleRows :: int
  editing :: bool
  editBuffer :: string
  selectedTag :: "ptr option"
  flatTagList :: "ptr list"
  modified :: bool

definition new_NBTEditor :: "string \<Rightarrow> NBTEditor" where
  "new_NBTEditor fname =
     \<lparr>nbtFile = new_NBTFile fname, currentRow = 0, scrollOffset = 0, maxVisibleRows = 0,
      editing = False, editBuffer = [], selectedTag = None, flatTagList = [], modified = False\<rparr>"

definition getRoot :: "NBTEditor \<Rightarrow> NBTTag option" where
  "getRoot e = rootTag (nbtFile e)"

text \<open>
  The node \<^verbatim>\<open>selectedTag\<close> points to, with the pointer; \<open>None\<close> for the null pointer. A
  \<^verbatim>\<open>shared_ptr\<close> always has a pointee, so a path that leads nowhere stands for no pointer of
  the program; it is treated like the null pointer, and \<open>reachable_selected\<close> below shows that
  the loop never meets one.
\<close>

definition selected :: "NBTEditor \<Rightarrow> (ptr \<times> NBTTag) option" where
  "selected e =
     (case selectedTag e of
        None \<Rightarrow> None
      | Some p \<Rightarrow> (case getRoot e of
                    None \<Rightarrow> None
                  | Some root \<Rightarrow> map_option (Pair p) (deref root p)))"

text \<open>\<open>store p f e\<close>: a write through the pointer \<open>p\<close>.\<close>

definition store :: "ptr \<Rightarrow> (NBTTag \<Rightarrow> NBTTag) \<Rightarrow> NBTEditor \<Rightarrow> NBTEditor" where
  "store p f e = e\<lparr>nbtFile := (nbtFile e)\<lparr>rootTag := map_option (update p f) (getRoot e)\<rparr>\<rparr>"

lemma size_listVal: "c \<in> set (listVal (value' tag)) \<Longrightarrow> size c < size tag"
proof -
  assume c: "c \<in> set (listVal (value' tag))"
  obtain ty n v where tag: "tag = NBTTag ty n v" by (cases tag)
  from c have "size c \<le> size_list size (listVal v)"
    unfolding tag by (simp add: size_list_estimation')
  then show ?thesis unfolding tag by (cases v) simp
qed

lemma size_compoundVal: "(k, c) \<in> set (compoundVal (value' tag)) \<Longrightarrow> size c < size tag"
proof -
  assume c: "(k, c) \<in> set (compoundVal (value' tag))"
  obtain ty n v where tag: "tag = NBTTag ty n v" by (cases tag)
  from c have "size c \<le> size_list (size_prod (\<lambda>_. 0) size) (compoundVal v)"
    unfolding tag using size_list_estimation' [of "(k, c)" "compoundVal v" "size c"] by simp
  then show ?thesis unfolding tag by (cases v) simp
qed

text \<open>
  \<^verbatim>\<open>NBTEditor::flattenTags\<close>. The argument \<^verbatim>\<open>tag\<close> is the pointer \<open>p\<close> together with the node it
  points to (\<open>None\<close> for the null pointer); the result is the list of the pointers pushed
  onto \<^verbatim>\<open>flatTagList\<close>, in the order of the \<^verbatim>\<open>push_back\<close> calls. The range-\<^verbatim>\<open>for\<close> over
  \<^verbatim>\<open>compoundVal\<close> follows the order of the map, the one over \<^verbatim>\<open>listVal\<close> the indices.
\<close>

function flattenTags :: "NBTTag option \<Rightarrow> ptr \<Rightarrow> int \<Rightarrow> ptr list" where
  "flattenTags None p depth = []"
| "flattenTags (Some tag) p depth =
     p # (if type tag = COMPOUND
          then concat (map (\<lambda>(k, c). flattenTags (Some c) (p @ [Key k]) (depth + 1))
                 (compoundVal (value' tag)))
          else if type tag = LIST
          then concat (map (\<lambda>i. flattenTags (Some (listVal (value' tag) ! i)) (p @ [Idx i])
                              (depth + 1))
                 [0..<length (listVal (value' tag))])
          else [])"
  by pat_completeness auto
termination
  by (relation "measure (\<lambda>(t, p, d). case t of None \<Rightarrow> 0 | Some tag \<Rightarrow> size tag)")
    (auto simp: size_listVal size_compoundVal)

declare flattenTags.simps(2) [simp del]

text \<open>\<^verbatim>\<open>NBTEditor::refreshTagList\<close>.\<close>

definition refreshTagList :: "NBTEditor \<Rightarrow> NBTEditor" where
  "refreshTagList e = e\<lparr>flatTagList := flattenTags (getRoot e) [] 0\<rparr>"

text \<open>
  \<^verbatim>\<open>NBTEditor::drawEditor\<close>, as far as it changes the editor: \<open>maxY\<close> is the height
  \<^verbatim>\<open>getmaxyx\<close> reports. \<^verbatim>\<open>endIdx\<close> is computed before the scroll offset is adjusted, and
  \<^verbatim>\<open>selectedTag\<close> is assigned only when the loop from the adjusted \<^verbatim>\<open>startIdx\<close> to \<^verbatim>\<open>endIdx\<close>
  passes \<^verbatim>\<open>currentRow\<close>.
\<close>

definition drawEditor :: "int \<Rightarrow> NBTEditor \<Rightarrow> NBTEditor" where
  "drawEditor maxY e =
     (let e = e\<lparr>maxVisibleRows := maxY - 2\<rparr>;
          startIdx = scrollOffset e;
          endIdx = min (startIdx + maxVisibleRows e) (int (length (flatTagList e)));
          e = (if currentRow e < startIdx then e\<lparr>scrollOffset := currentRow e\<rparr>
               else if currentRow e \<ge> startIdx + maxVisibleRows e
               then e\<lparr>scrollOffset := currentRow e - maxVisibleRows e + 1\<rparr>
               else e);
          startIdx = scrollOffset e
      in if startIdx \<le> currentRow e \<and> currentRow e < endIdx
         then e\<lparr>selectedTag := Some (flatTagList e ! nat (currentRow e))\<rparr>
         else e)"

text \<open>
  The outcome of a command: the editor after it, or the exception that leaves it. Nothing
  in the handlers below raises or lets an exception pass, so their outcome is always
  \<open>Inr\<close>; the sum keeps this visible in their types.

  \<^verbatim>\<open>NBTEditor::editValue\<close>: \<open>result\<close> and \<open>input\<close> are what \<^verbatim>\<open>mvgetnstr\<close> returns and the line
  it has read.
\<close>

definition OK :: int where
  "OK = 0"

definition editable :: "TagType \<Rightarrow> bool" where
  "editable t = (\<not> (t \<noteq> BYTE \<and> t \<noteq> SHORT \<and> t \<noteq> INT_TAG \<and> t \<noteq> LONG \<and> t \<noteq> FLOAT \<and> t \<noteq> DOUBLE
     \<and> t \<noteq> STRING))"

definition substr :: "nat \<Rightarrow> nat \<Rightarrow> string \<Rightarrow> string" where
  "substr pos n s = take n (drop pos s)"

definition editValue :: "fp_text \<Rightarrow> int \<Rightarrow> string \<Rightarrow> NBTEditor \<Rightarrow> exn + NBTEditor" where
  "editValue fp result input e =
     (case selected e of
        None \<Rightarrow> Inr e
      | Some (p, tag) \<Rightarrow>
          if \<not> editable (type tag) then Inr e
          else
            let e = e\<lparr>editBuffer := NBTValue_toString fp (value' tag)\<rparr>;
                e = (if type tag = STRING
                     then e\<lparr>editBuffer := substr 1 (length (editBuffer e) - 2) (editBuffer e)\<rparr>
                     else e);
                e = (if type tag = FLOAT \<and> last (editBuffer e) = CHR ''f''
                     then e\<lparr>editBuffer := butlast (editBuffer e)\<rparr>
                     else if type tag = LONG \<and> last (editBuffer e) = CHR ''L''
                     then e\<lparr>editBuffer := butlast (editBuffer e)\<rparr>
                     else e)
            in if result = OK
               then (case setValueFromString fp input tag of
                       Inr tag' \<Rightarrow> Inr ((store p (\<lambda>_. tag') e)\<lparr>modified := True\<rparr>)
                     | Inl x \<Rightarrow> Inr e)
               else Inr e)"

text \<open>
  The text \<^verbatim>\<open>editValue\<close> leaves in \<^verbatim>\<open>editBuffer\<close> for an editable node: its value as
  \<^verbatim>\<open>toString\<close> prints it, without the quotes of a string and without the suffix of a float
  or a long.
\<close>

definition edit_seed :: "fp_text \<Rightarrow> NBTTag \<Rightarrow> string" where
  "edit_seed fp tag =
     (let buf = NBTValue_toString fp (value' tag);
          buf = (if type tag = STRING then substr 1 (length buf - 2) buf else buf)
      in if type tag = FLOAT \<and> last buf = CHR ''f'' then butlast buf
         else if type tag = LONG \<and> last buf = CHR ''L'' then butlast buf
         else buf)"

text \<open>\<^verbatim>\<open>NBTEditor::saveChanges\<close>.\<close>

definition saveChanges :: "NBTEditor \<Rightarrow> exn + NBTEditor" where
  "saveChanges e =
     (case save (nbtFile e) of
        (ok, file) \<Rightarrow> Inr (if ok then e\<lparr>nbtFile := file, modified := False\<rparr>
                           else e\<lparr>nbtFile := file\<rparr>))"

text \<open>\<^verbatim>\<open>NBTEditor::addTag\<close>.\<close>

definition addTag :: "NBTEditor \<Rightarrow> exn + NBTEditor" where
  "addTag e =
     (case selected e of
        None \<Rightarrow> Inr e
      | Some (p, tag) \<Rightarrow>
          if type tag = COMPOUND
          then let newTag = new_NBTTag STRING ''new_tag'';
                   newTag = map_value (set_stringVal ''value'') newTag;
                   e = store p (compound_assign ''new_tag'' newTag) e;
                   e = refreshTagList e
               in Inr (e\<lparr>modified := True\<rparr>)
          else Inr e)"

text \<open>\<^verbatim>\<open>NBTEditor::deleteTag\<close>.\<close>

definition deleteTag :: "NBTEditor \<Rightarrow> exn + NBTEditor" where
  "deleteTag e =
     (case selected e of
        None \<Rightarrow> Inr e
      | Some (p, tag) \<Rightarrow>
          if p \<noteq> []
          then Inr ((store p (\<lambda>t. set_name (''[DELETED] '' @ name t) t) e)\<lparr>modified := True\<rparr>)
          else Inr e)"

text \<open>
  \<^verbatim>\<open>NBTEditor::handleInput\<close>. \<^verbatim>\<open>KEY_DOWN\<close> and \<^verbatim>\<open>KEY_UP\<close> are the key codes of
  \<^verbatim>\<open>ncurses.h\<close> (octal 0402 and 0403); the letters are their character codes.
\<close>

definition KEY_DOWN :: int where
  "KEY_DOWN = 258"

definition KEY_UP :: int where
  "KEY_UP = 259"

definition key :: "char \<Rightarrow> int" where
  "key c = of_char c"

definition handleInput :: "fp_text \<Rightarrow> int \<Rightarrow> int \<times> string \<Rightarrow> NBTEditor \<Rightarrow> exn + NBTEditor" where
  "handleInput fp ch typed e =
     (if ch = KEY_UP
      then Inr (if currentRow e > 0 then e\<lparr>currentRow := currentRow e - 1\<rparr> else e)
      else if ch = KEY_DOWN
      then Inr (if currentRow e < int (length (flatTagList e)) - 1
                then e\<lparr>currentRow := currentRow e + 1\<rparr> else e)
      else if ch = key CHR ''e'' \<or> ch = key CHR ''E'' then editValue fp (fst typed) (snd typed) e
      else if ch = key CHR ''a'' \<or> ch = key CHR ''A'' then addTag e
      else if ch = key CHR ''d'' \<or> ch = key CHR ''D'' then deleteTag e
      else if ch = key CHR ''s'' \<or> ch = key CHR ''S'' then saveChanges e
      else Inr e)"

text \<open>
  \<^verbatim>\<open>NBTEditor::run\<close>: the editors at the head of the loop. \<^verbatim>\<open>load\<close> and \<^verbatim>\<open>refreshTagList\<close>
  come first; each round draws and then handles one key that is not the quit key. \<open>maxY\<close>,
  \<open>ch\<close> and \<open>typed\<close> come from the terminal and are arbitrary. A round in which the quit
  key is answered by a key other than \<^verbatim>\<open>y\<close> and \<^verbatim>\<open>n\<close> only draws; it leaves the editor a round
  with an unbound key leaves.
\<close>

definition started :: "string \<Rightarrow> NBTEditor" where
  "started fname =
     (let e = new_NBTEditor fname;
          e = e\<lparr>nbtFile := snd (load (nbtFile e))\<rparr>
      in refreshTagList e)"

inductive reachable :: "fp_text \<Rightarrow> NBTEditor \<Rightarrow> bool" for fp :: fp_text where
  start: "reachable fp (started fname)"
| round: "reachable fp e \<Longrightarrow> ch \<noteq> key CHR ''q'' \<Longrightarrow> ch \<noteq> key CHR ''Q'' \<Longrightarrow>
          handleInput fp ch typed (drawEditor maxY e) = Inr e' \<Longrightarrow> reachable fp e'"

section \<open>Concrete editors\<close>

text \<open>The tree \<^verbatim>\<open>load\<close> builds, written out, and its projection.\<close>

definition load_tree :: NBTTag where
  "load_tree =
     NBTTag COMPOUND ''root'' (NBTValue COMPOUND 0 0 0 0 0 0 [] [] [] [] []
       [(''health'', NBTTag FLOAT ''health'' (NBTValue FLOAT 0 0 0 0 0x41A00000 0 [] [] [] [] [] [])),
        (''inventory'', NBTTag COMPOUND ''inventory'' (NBTValue COMPOUND 0 0 0 0 0 0 [] [] [] [] []
           [(''items'', NBTTag LIST ''items'' (NBTValue LIST 0 0 0 0 0 0 [] [] [] []
               [NBTTag COMPOUND [] (NBTValue COMPOUND 0 0 0 0 0 0 [] [] [] [] []
                  [(''count'', NBTTag BYTE ''count'' (NBTValue BYTE 1 0 0 0 0 0 [] [] [] [] [] [])),
                   (''id'', NBTTag SHORT ''id'' (NBTValue SHORT 0 276 0 0 0 0 [] [] [] [] [] []))]),
                NBTTag COMPOUND [] (NBTValue COMPOUND 0 0 0 0 0 0 [] [] [] [] []
                  [(''count'', NBTTag BYTE ''count'' (NBTValue BYTE 5 0 0 0 0 0 [] [] [] [] [] [])),
                   (''id'', NBTTag SHORT ''id'' (NBTValue SHORT 0 264 0 0 0 0 [] [] [] [] [] []))])]
               []))])),
        (''name'', NBTTag STRING ''name''
           (NBTValue STRING 0 0 0 0 0 0 ''Test Player'' [] [] [] [] [])),
        (''position'', NBTTag LIST ''position'' (NBTValue LIST 0 0 0 0 0 0 [] [] [] []
           [NBTTag DOUBLE [] (NBTValue DOUBLE 0 0 0 0 0 0x4059200000000000 [] [] [] [] [] []),
            NBTTag DOUBLE [] (NBTValue DOUBLE 0 0 0 0 0 0x4050000000000000 [] [] [] [] [] []),
            NBTTag DOUBLE [] (NBTValue DOUBLE 0 0 0 0 0 0xC069180000000000 [] [] [] [] [] [])]
           []))])"

definition load_rows :: "ptr list" where
  "load_rows =
     [[], [Key ''health''], [Key ''inventory''], [Key ''inventory'', Key ''items''],
      [Key ''inventory'', Key ''items'', Idx 0],
      [Key ''inventory'', Key ''items'', Idx 0, Key ''count''],
      [Key ''inventory'', Key ''items'', Idx 0, Key ''id''],
      [Key ''inventory'', Key ''items'', Idx 1],
      [Key ''inventory'', Key ''items'', Idx 1, Key ''count''],
      [Key ''inventory'', Key ''items'', Idx 1, Key ''id''],
      [Key ''name''], [Key ''position''], [Key ''position'', Idx 0], [Key ''position'', Idx 1],
      [Key ''position'', Idx 2]]"

text \<open>Floating-point conversions that reject every text, for the concrete editors below.\<close>

definition no_fp :: fp_text where
  "no_fp = \<lparr>stof = (\<lambda>_. Inl invalid_argument), stod = (\<lambda>_. Inl invalid_argument),
     float_to_string = (\<lambda>_. []), double_to_string = (\<lambda>_. [])\<rparr>"

text \<open>
  A key sequence without the quit key: each round draws on a terminal of height \<open>maxY\<close>
  and handles one key, as the loop of \<^verbatim>\<open>run\<close> does.
\<close>

fun rounds :: "fp_text \<Rightarrow> int \<Rightarrow> (int \<times> int \<times> string) list \<Rightarrow> NBTEditor \<Rightarrow> NBTEditor" where
  "rounds fp maxY [] e = e"
| "rounds fp maxY ((ch, typed) # ks) e =
     (case handleInput fp ch typed (drawEditor maxY e) of
        Inr e' \<Rightarrow> rounds fp maxY ks e'
      | Inl x \<Rightarrow> e)"

text \<open>The editor after \<^verbatim>\<open>load\<close>, \<open>n\<close> presses of the down key and a draw, on 24 lines.\<close>

definition shown :: "string \<Rightarrow> nat \<Rightarrow> NBTEditor" where
  "shown fname n =
     drawEditor 24 (rounds no_fp 24 (replicate n (KEY_DOWN, OK, [])) (started fname))"

text \<open>A tree other than the one \<^verbatim>\<open>load\<close> builds: an empty compound.\<close>

definition other_tree :: NBTTag where
  "other_tree = new_NBTTag COMPOUND ''data''"

text \<open>The map after the assignments \<^verbatim>\<open>m[k] = c\<close> for the pairs of \<open>ins\<close>, first to last.\<close>

definition assign_all :: "(string \<times> 'a) list \<Rightarrow> (string \<times> 'a) list \<Rightarrow> (string \<times> 'a) list" where
  "assign_all ins m = foldl (\<lambda>m (k, c). map_assign k c m) m ins"

text \<open>A compound to which \<^verbatim>\<open>name\<close> and then \<^verbatim>\<open>health\<close> are assigned, as \<^verbatim>\<open>load\<close> does first.\<close>

definition name_then_health :: NBTTag where
  "name_then_health =
     compound_assign ''health'' (new_NBTTag FLOAT ''health'')
       (compound_assign ''name'' (new_NBTTag STRING ''name'') (new_NBTTag COMPOUND ''root''))"

text \<open>
  The editor after \<^verbatim>\<open>load\<close> and these keys: down to the first item of the inventory,
  \<^verbatim>\<open>a\<close> to add a tag to it, down to the new tag, \<^verbatim>\<open>e\<close> to change its text to \<^verbatim>\<open>precious\<close>, up
  to the item again; then drawn.
\<close>

definition with_new_tag :: "string \<Rightarrow> NBTEditor" where
  "with_new_tag fname =
     drawEditor 24 (rounds no_fp 24
       [(KEY_DOWN, OK, []), (KEY_DOWN, OK, []), (KEY_DOWN, OK, []), (KEY_DOWN, OK, []),
        (key CHR ''a'', OK, []),
        (KEY_DOWN, OK, []), (KEY_DOWN, OK, []), (KEY_DOWN, OK, []),
        (key CHR ''e'', OK, ''precious''),
        (KEY_UP, OK, []), (KEY_UP, OK, []), (KEY_UP, OK, [])]
       (started fname))"

section \<open>Invariants\<close>

text \<open>\<open>marks n s\<close>: the text \<open>s\<close> with \<^verbatim>\<open>[DELETED] \<close> put before it \<open>n\<close> times.\<close>

fun marks :: "nat \<Rightarrow> string \<Rightarrow> string" where
  "marks 0 s = s"
| "marks (Suc n) s = ''[DELETED] '' @ marks n s"

text \<open>
  What holds of every child \<open>c\<close> stored under a key \<open>k\<close> of a compound: its name is the key
  with some marks before it, and under the key \<^verbatim>\<open>new_tag\<close> there is a string tag.
\<close>

definition entry_ok :: "string \<Rightarrow> NBTTag \<Rightarrow> bool" where
  "entry_ok k c = ((\<exists>n. name c = marks n k) \<and> (k = ''new_tag'' \<longrightarrow> type c = STRING))"

text \<open>
  \<open>wf_tag tag\<close>: this holds of every entry of every compound in the tree below \<open>tag\<close>, and
  the keys of every compound are in strictly ascending order, as those of a \<^verbatim>\<open>std::map\<close> are.
\<close>

function wf_tag :: "NBTTag \<Rightarrow> bool" where
  "wf_tag (NBTTag ty n v) =
     (sorted_wrt (<) (map fst (compoundVal v))
      \<and> (\<forall>(k, c) \<in> set (compoundVal v). entry_ok k c \<and> wf_tag c)
      \<and> (\<forall>c \<in> set (listVal v). wf_tag c))"
  by pat_completeness auto
termination
proof (relation "measure size")
  show "wf (measure size)" by simp
next
  fix ty :: TagType and n :: string and v :: "NBTTag NBTValue" and x k c
  assume "x \<in> set (compoundVal v)" "(k, c) = x"
  then have "(k, c) \<in> set (compoundVal (value' (NBTTag ty n v)))" by simp
  then have "size c < size (NBTTag ty n v)" by (rule size_compoundVal)
  then show "(c, NBTTag ty n v) \<in> measure size" by simp
next
  fix ty :: TagType and n :: string and v :: "NBTTag NBTValue" and c
  assume "c \<in> set (listVal v)"
  then have "c \<in> set (listVal (value' (NBTTag ty n v)))" by simp
  then have "size c < size (NBTTag ty n v)" by (rule size_listVal)
  then show "(c, NBTTag ty n v) \<in> measure size" by simp
qed

text \<open>The number of rows the projection of a tree has.\<close>

definition rows :: "NBTTag \<Rightarrow> nat" where
  "rows tag = length (flattenTags (Some tag) [] 0)"

text \<open>
  The invariant of the loop of \<^verbatim>\<open>run\<close>: there is a tree, it is well formed, \<^verbatim>\<open>flatTagList\<close> is
  its projection, \<^verbatim>\<open>currentRow\<close> is an index of the projection, and \<^verbatim>\<open>selectedTag\<close> is null or
  points to a node of the tree.
\<close>

definition editor_inv :: "NBTEditor \<Rightarrow> bool" where
  "editor_inv e =
     (\<exists>r. getRoot e = Some r \<and> wf_tag r \<and> flatTagList e = flattenTags (Some r) [] 0
        \<and> 0 \<le> currentRow e \<and> currentRow e < int (length (flatTagList e))
        \<and> (\<forall>p. selectedTag e = Some p \<longrightarrow> deref r p \<noteq> None))"

text \<open>The editor after \<^verbatim>\<open>load\<close>, the down key and \<^verbatim>\<open>d\<close>: the tag \<^verbatim>\<open>health\<close> has been deleted.\<close>

definition health_deleted :: "string \<Rightarrow> NBTEditor" where
  "health_deleted fname =
     rounds no_fp 24 [(KEY_DOWN, OK, []), (key CHR ''d'', OK, [])] (started fname)"

section \<open>The byte swaps are their own inverses\<close>

lemma mask_bytes32:
  "(0xFF :: 32 word) = mask 8" "(0xFF00 :: 32 word) = push_bit 8 (mask 8)"
  "(0xFF0000 :: 32 word) = push_bit 16 (mask 8)" "(0xFF000000 :: 32 word) = push_bit 24 (mask 8)"
  by (simp_all add: mask_eq_exp_minus_1)

lemma mask_bytes64:
  "(0xFF :: 64 word) = mask 8" "(0xFF00 :: 64 word) = push_bit 8 (mask 8)"
  "(0xFF0000 :: 64 word) = push_bit 16 (mask 8)" "(0xFF000000 :: 64 word) = push_bit 24 (mask 8)"
  "(0xFF00000000 :: 64 word) = push_bit 32 (mask 8)"
  "(0xFF0000000000 :: 64 word) = push_bit 40 (mask 8)"
  "(0xFF000000000000 :: 64 word) = push_bit 48 (mask 8)"
  "(0xFF00000000000000 :: 64 word) = push_bit 56 (mask 8)"
  by (simp_all add: mask_eq_exp_minus_1)

text \<open>A bit position below 64 lies in one of eight bytes.\<close>

lemma byte_positions:
  fixes n :: nat
  assumes "n < 64"
  obtains k where "k < 8" "n = k" | k where "k < 8" "n = 8 + k" | k where "k < 8" "n = 16 + k"
    | k where "k < 8" "n = 24 + k" | k where "k < 8" "n = 32 + k" | k where "k < 8" "n = 40 + k"
    | k where "k < 8" "n = 48 + k" | k where "k < 8" "n = 56 + k"
proof -
  consider "n < 8" | "8 \<le> n" "n < 16" | "16 \<le> n" "n < 24" | "24 \<le> n" "n < 32"
    | "32 \<le> n" "n < 40" | "40 \<le> n" "n < 48" | "48 \<le> n" "n < 56" | "56 \<le> n" "n < 64"
    using assms by linarith
  then show ?thesis
  proof cases
    case 1 then show ?thesis using that(1) [of n] by simp
  next
    case 2 then show ?thesis using that(2) [of "n - 8"] by simp
  next
    case 3 then show ?thesis using that(3) [of "n - 16"] by simp
  next
    case 4 then show ?thesis using that(4) [of "n - 24"] by simp
  next
    case 5 then show ?thesis using that(5) [of "n - 32"] by simp
  next
    case 6 then show ?thesis using that(6) [of "n - 40"] by simp
  next
    case 7 then show ?thesis using that(7) [of "n - 48"] by simp
  next
    case 8 then show ?thesis using that(8) [of "n - 56"] by simp
  qed
qed

lemma bit_swap32:
  assumes "k < 8"
  shows "bit (swap32 v) k = bit v (24 + k)" "bit (swap32 v) (8 + k) = bit v (16 + k)"
    "bit (swap32 v) (16 + k) = bit v (8 + k)" "bit (swap32 v) (24 + k) = bit v k"
  using assms by (simp_all add: swap32_def mask_bytes32 bit_simps add.commute)

lemma bit_swap64:
  assumes "k < 8"
  shows "bit (swap64 v) k = bit v (56 + k)" "bit (swap64 v) (8 + k) = bit v (48 + k)"
    "bit (swap64 v) (16 + k) = bit v (40 + k)" "bit (swap64 v) (24 + k) = bit v (32 + k)"
    "bit (swap64 v) (32 + k) = bit v (24 + k)" "bit (swap64 v) (40 + k) = bit v (16 + k)"
    "bit (swap64 v) (48 + k) = bit v (8 + k)" "bit (swap64 v) (56 + k) = bit v k"
  using assms by (simp_all add: swap64_def mask_bytes64 bit_simps add.commute)

lemma swap32_swap32: "swap32 (swap32 v) = v"
proof (rule bit_word_eqI)
  fix n :: nat
  assume "n < LENGTH(32)"
  then have "n < 64" "n < 32" by simp_all
  then show "bit (swap32 (swap32 v)) n = bit v n"
    by (cases n rule: byte_positions) (simp_all add: bit_swap32)
qed

lemma swap64_swap64: "swap64 (swap64 v) = v"
proof (rule bit_word_eqI)
  fix n :: nat
  assume "n < LENGTH(64)"
  then have "n < 64" by simp
  then show "bit (swap64 (swap64 v)) n = bit v n"
    by (cases n rule: byte_positions) (simp_all add: bit_swap64)
qed

lemma int32_of_mem_of_int32: "int32_of_mem (mem_of_int32 w) = w"
proof (rule bit_word_eqI)
  fix n :: nat
  assume "n < LENGTH(32)"
  then have "n < 64" "n < 32" by simp_all
  then show "bit (int32_of_mem (mem_of_int32 w)) n = bit w n"
    by (cases n rule: byte_positions)
      (simp_all add: int32_of_mem_def mem_of_int32_def bit_simps add.commute)
qed

lemma int64_of_mem_of_int64: "int64_of_mem (mem_of_int64 w) = w"
proof (rule bit_word_eqI)
  fix n :: nat
  assume "n < LENGTH(64)"
  then have "n < 64" by simp
  then show "bit (int64_of_mem (mem_of_int64 w)) n = bit w n"
    by (cases n rule: byte_positions)
      (simp_all add: int64_of_mem_def mem_of_int64_def bit_simps add.commute)
qed

text \<open>
  C9. What \<^verbatim>\<open>writeInt\<close> appends to a stream, \<^verbatim>\<open>readInt\<close> reads back as the same 32-bit
  value, and what \<^verbatim>\<open>writeLong\<close> appends, \<^verbatim>\<open>readLong\<close> reads back as the same 64-bit value,
  for every value, negative ones included; the bytes that follow stay in the stream.
\<close>

theorem write_read_roundtrip:
  "readInt (writeInt [] v @ rest) = Some (v, rest)
   \<and> readLong (writeLong [] w @ rest') = Some (w, rest')"
proof
  have "length (mem_of_int32 x) = 4" for x by (simp add: mem_of_int32_def)
  then show "readInt (writeInt [] v @ rest) = Some (v, rest)"
    using swap32_swap32 [of v]
    by (simp add: readInt_def writeInt_def Let_def int32_of_mem_of_int32 swap32_def)
  have "length (mem_of_int64 x) = 8" for x by (simp add: mem_of_int64_def)
  then show "readLong (writeLong [] w @ rest') = Some (w, rest')"
    using swap64_swap64 [of w]
    by (simp add: readLong_def writeLong_def Let_def int64_of_mem_of_int64 swap64_def)
qed

section \<open>Selectors, maps and pointers\<close>

lemma sel_map_value [simp]:
  "type (map_value f t) = type t" "name (map_value f t) = name t"
  "value' (map_value f t) = f (value' t)"
  by (simp_all add: map_value_def)

lemma sel_set_name [simp]:
  "type (set_name n t) = type t" "name (set_name n t) = n" "value' (set_name n t) = value' t"
  by (simp_all add: set_name_def)

lemma sel_new_NBTTag [simp]:
  "type (new_NBTTag ty n) = ty" "name (new_NBTTag ty n) = n"
  "compoundVal (value' (new_NBTTag ty n)) = []" "listVal (value' (new_NBTTag ty n)) = []"
  by (simp_all add: new_NBTTag_def new_NBTValue_def)

lemma children_set_scalar [simp]:
  "compoundVal (set_byteVal b v) = compoundVal v" "listVal (set_byteVal b v) = listVal v"
  "compoundVal (set_shortVal s v) = compoundVal v" "listVal (set_shortVal s v) = listVal v"
  "compoundVal (set_intVal i v) = compoundVal v" "listVal (set_intVal i v) = listVal v"
  "compoundVal (set_longVal l v) = compoundVal v" "listVal (set_longVal l v) = listVal v"
  "compoundVal (set_floatVal x v) = compoundVal v" "listVal (set_floatVal x v) = listVal v"
  "compoundVal (set_doubleVal d v) = compoundVal v" "listVal (set_doubleVal d v) = listVal v"
  "compoundVal (set_stringVal str v) = compoundVal v" "listVal (set_stringVal str v) = listVal v"
  by (simp_all add: set_byteVal_def set_shortVal_def set_intVal_def set_longVal_def
      set_floatVal_def set_doubleVal_def set_stringVal_def)

lemma children_set_children [simp]:
  "compoundVal (set_compoundVal m v) = m" "listVal (set_compoundVal m v) = listVal v"
  "compoundVal (set_listVal l v) = compoundVal v" "listVal (set_listVal l v) = l"
  by (simp_all add: set_compoundVal_def set_listVal_def)

lemma sel_compound_assign [simp]:
  "type (compound_assign k c t) = type t" "name (compound_assign k c t) = name t"
  "compoundVal (value' (compound_assign k c t)) = map_assign k c (compoundVal (value' t))"
  "listVal (value' (compound_assign k c t)) = listVal (value' t)"
  by (simp_all add: compound_assign_def)

lemma sel_compound_modify [simp]:
  "type (compound_modify k f t) = type t" "name (compound_modify k f t) = name t"
  "compoundVal (value' (compound_modify k f t)) = map_modify k f (compoundVal (value' t))"
  "listVal (value' (compound_modify k f t)) = listVal (value' t)"
  by (simp_all add: compound_modify_def)

lemma sel_list_modify [simp]:
  "type (list_modify i f t) = type t" "name (list_modify i f t) = name t"
  "compoundVal (value' (list_modify i f t)) = compoundVal (value' t)"
  "listVal (value' (list_modify i f t)) = (listVal (value' t))[i := f (listVal (value' t) ! i)]"
  by (simp_all add: list_modify_def)

subsection \<open>The map operations\<close>

lemma keys_map_modify [simp]: "map fst (map_modify k f m) = map fst m"
  by (induction m) auto

lemma length_map_modify [simp]: "length (map_modify k f m) = length m"
  by (induction m) auto

lemma map_of_map_modify:
  "map_of (map_modify k f m) k' = (if k' = k then map_option f (map_of m k) else map_of m k')"
  by (induction m) auto

lemma map_of_map_assign: "map_of (map_assign k v m) = (map_of m)(k \<mapsto> v)"
  by (induction m) (auto simp: fun_upd_twist)

lemma keys_map_assign: "set (map fst (map_assign k v m)) = insert k (set (map fst m))"
proof -
  have "fst ` set (map_assign k v m) = dom (map_of (map_assign k v m))"
    by (simp add: dom_map_of_conv_image_fst)
  also have "\<dots> = insert k (dom (map_of m))"
    by (simp add: map_of_map_assign)
  finally show ?thesis by (simp add: dom_map_of_conv_image_fst)
qed

lemma sorted_map_assign:
  "sorted_wrt (<) (map fst m) \<Longrightarrow> sorted_wrt (<) (map fst (map_assign k v m))"
proof (induction m)
  case Nil
  then show ?case by simp
next
  case (Cons a m)
  obtain k' v' where a: "a = (k', v')" by (cases a)
  from Cons show ?case
    unfolding a using keys_map_assign [of k v m]
    by (auto simp del: set_map)
qed

subsection \<open>Pointers\<close>

lemma update_type_name:
  "p \<noteq> [] \<Longrightarrow> type (update p f t) = type t \<and> name (update p f t) = name t"
  by (cases "(p, f, t)" rule: update.cases) auto

lemma deref_update: "deref r p = Some t \<Longrightarrow> deref (update p f r) p = Some (f t)"
proof (induction p arbitrary: r)
  case Nil
  then show ?case by simp
next
  case (Cons s p)
  then show ?case
    by (cases s) (auto simp: map_of_map_modify split: option.splits if_splits)
qed

lemma deref_append:
  "deref r (q @ p) = (case deref r q of None \<Rightarrow> None | Some t \<Rightarrow> deref t p)"
  by (induction q arbitrary: r) (auto split: option.splits)

lemma update_append: "update (q @ p) f r = update q (update p f) r"
proof (induction q arbitrary: r)
  case Nil
  then show ?case by simp
next
  case (Cons s q)
  then have "update (q @ p) f = update q (update p f)" by auto
  then show ?case by (cases s) simp_all
qed

subsection \<open>The projection\<close>

lemma map_modify_cong:
  assumes "map_of m k = Some c" and "F k (g c) = F k c"
  shows "map (\<lambda>(k, c). F k c) (map_modify k g m) = map (\<lambda>(k, c). F k c) m"
  using assms by (induction m) (auto split: if_splits)

lemma map_modify_absent: "map_of m k = None \<Longrightarrow> map_modify k g m = m"
  by (induction m) (auto split: if_splits)

lemma flattenTags_update_same:
  assumes "deref r p = Some t"
    and "\<And>q d. flattenTags (Some (f t)) q d = flattenTags (Some t) q d"
  shows "flattenTags (Some (update p f r)) q d = flattenTags (Some r) q d"
  using assms(1)
proof (induction p arbitrary: r q d)
  case Nil
  then show ?case by (simp add: assms(2))
next
  case (Cons s p)
  show ?case
  proof (cases s)
    case (Key k)
    with Cons.prems obtain c where c: "map_of (compoundVal (value' r)) k = Some c" "deref c p = Some t"
      by (auto split: option.splits)
    have "map (\<lambda>(k', c). flattenTags (Some c) (q @ [Key k']) (d + 1))
            (map_modify k (update p f) (compoundVal (value' r)))
          = map (\<lambda>(k', c). flattenTags (Some c) (q @ [Key k']) (d + 1)) (compoundVal (value' r))"
      using c(1) by (rule map_modify_cong) (rule Cons.IH [OF c(2)])
    then show ?thesis using Key
      by (simp add: flattenTags.simps(2) [of r]
          flattenTags.simps(2) [of "compound_modify k (update p f) r"])
  next
    case (Idx i)
    with Cons.prems have i: "i < length (listVal (value' r))" "deref (listVal (value' r) ! i) p = Some t"
      by (auto split: if_splits)
    have "concat (map (\<lambda>j. flattenTags (Some ((listVal (value' r))[i := update p f (listVal (value' r) ! i)] ! j))
                  (q @ [Idx j]) (d + 1)) [0..<length (listVal (value' r))])
        = concat (map (\<lambda>j. flattenTags (Some (listVal (value' r) ! j)) (q @ [Idx j]) (d + 1))
            [0..<length (listVal (value' r))])"
    proof (rule arg_cong [where f = concat], rule map_cong [OF refl])
      fix j
      assume "j \<in> set [0..<length (listVal (value' r))]"
      then have j: "j < length (listVal (value' r))" by simp
      show "flattenTags (Some ((listVal (value' r))[i := update p f (listVal (value' r) ! i)] ! j))
              (q @ [Idx j]) (d + 1)
            = flattenTags (Some (listVal (value' r) ! j)) (q @ [Idx j]) (d + 1)"
      proof (cases "j = i")
        case True
        then show ?thesis using i(1) Cons.IH [OF i(2)] by simp
      next
        case False
        then show ?thesis by simp
      qed
    qed
    then show ?thesis using Idx i(1)
      by (simp add: flattenTags.simps(2) [of r]
          flattenTags.simps(2) [of "list_modify i (update p f) r"])
  qed
qed

section \<open>The loaded tree\<close>

lemma load_eq: "load file = (True, file\<lparr>rootTag := Some load_tree\<rparr>)"
  by (simp add: load_def load_tree_def new_NBTTag_def new_NBTValue_def compound_assign_def
      compound_modify_def list_push_back_def list_modify_def map_value_def set_stringVal_def
      set_floatVal_def set_doubleVal_def set_shortVal_def set_byteVal_def set_compoundVal_def
      set_listVal_def Let_def)

lemma flattenTags_load_tree: "flattenTags (Some load_tree) [] 0 = load_rows"
  by (simp add: load_tree_def load_rows_def flattenTags.simps(2))

lemma started_eq:
  "started fname =
     \<lparr>nbtFile = \<lparr>filename = fname, rootTag = Some load_tree, compressed = True\<rparr>,
      currentRow = 0, scrollOffset = 0, maxVisibleRows = 0, editing = False, editBuffer = [],
      selectedTag = None, flatTagList = load_rows, modified = False\<rparr>"
  by (simp add: started_def new_NBTEditor_def new_NBTFile_def load_eq refreshTagList_def
      getRoot_def flattenTags_load_tree)

section \<open>Deleting\<close>

lemma getRoot_store [simp]: "getRoot (store p f e) = map_option (update p f) (getRoot e)"
  by (simp add: store_def getRoot_def)

lemma store_fields [simp]:
  "currentRow (store p f e) = currentRow e" "scrollOffset (store p f e) = scrollOffset e"
  "maxVisibleRows (store p f e) = maxVisibleRows e" "editing (store p f e) = editing e"
  "editBuffer (store p f e) = editBuffer e" "selectedTag (store p f e) = selectedTag e"
  "flatTagList (store p f e) = flatTagList e" "modified (store p f e) = modified e"
  by (simp_all add: store_def)

lemma getRoot_simps [simp]:
  "getRoot (e\<lparr>modified := m\<rparr>) = getRoot e" "getRoot (e\<lparr>editBuffer := b\<rparr>) = getRoot e"
  "getRoot (e\<lparr>currentRow := c\<rparr>) = getRoot e" "getRoot (e\<lparr>selectedTag := s\<rparr>) = getRoot e"
  "getRoot (e\<lparr>flatTagList := l\<rparr>) = getRoot e" "getRoot (e\<lparr>scrollOffset := c\<rparr>) = getRoot e"
  "getRoot (e\<lparr>maxVisibleRows := c\<rparr>) = getRoot e"
  by (simp_all add: getRoot_def)

lemma update_Nil [simp]: "update [] f = f"
  by (rule ext) simp

lemma selected_eq:
  "getRoot e = Some r \<Longrightarrow> selectedTag e = Some p \<Longrightarrow> deref r p = Some t
   \<Longrightarrow> selected e = Some (p, t)"
  by (simp add: selected_def)

lemma flattenTags_set_name:
  "flattenTags (Some (set_name n t)) q d = flattenTags (Some t) q d"
  by (simp add: flattenTags.simps(2) [of t] flattenTags.simps(2) [of "set_name n t"])

text \<open>
  C3 (amended). \<^verbatim>\<open>deleteTag\<close> on a selected child of a compound removes nothing: the child
  stays in the parent's collection under its key, with \<^verbatim>\<open>[DELETED] \<close> put before its name;
  the parent keeps the same keys and its other children, the projection of the tree has
  the same rows, and \<^verbatim>\<open>modified\<close> is set.
\<close>

theorem deleteTag_renames_child:
  assumes root: "getRoot e = Some r"
    and sel: "selectedTag e = Some (q @ [Key k])"
    and par: "deref r q = Some par"
    and c: "map_of (compoundVal (value' par)) k = Some c"
  shows "\<exists>e' r' par'. deleteTag e = Inr e' \<and> modified e' \<and> getRoot e' = Some r'
     \<and> deref r' q = Some par'
     \<and> map fst (compoundVal (value' par')) = map fst (compoundVal (value' par))
     \<and> map_of (compoundVal (value' par')) k = Some (set_name (''[DELETED] '' @ name c) c)
     \<and> (\<forall>k'. k' \<noteq> k \<longrightarrow>
           map_of (compoundVal (value' par')) k' = map_of (compoundVal (value' par)) k')
     \<and> flattenTags (Some r') [] 0 = flattenTags (Some r) [] 0"
proof -
  let ?f = "\<lambda>t. set_name (''[DELETED] '' @ name t) t"
  let ?p = "q @ [Key k]"
  let ?e' = "(store ?p ?f e)\<lparr>modified := True\<rparr>"
  have dc: "deref r ?p = Some c"
    using par c by (simp add: deref_append)
  then have "selected e = Some (?p, c)"
    using root sel by (simp add: selected_eq)
  then have 1: "deleteTag e = Inr ?e'"
    by (simp add: deleteTag_def)
  have 2: "getRoot ?e' = Some (update ?p ?f r)"
    using root by simp
  have 3: "deref (update ?p ?f r) q = Some (compound_modify k ?f par)"
    using deref_update [OF par, of "update [Key k] ?f"] by (simp add: update_append)
  have 4: "flattenTags (Some (update ?p ?f r)) [] 0 = flattenTags (Some r) [] 0"
    using dc by (rule flattenTags_update_same) (rule flattenTags_set_name)
  have 5: "modified ?e'" by simp
  have 6: "map fst (compoundVal (value' (compound_modify k ?f par)))
           = map fst (compoundVal (value' par))"
    by simp
  have 7: "map_of (compoundVal (value' (compound_modify k ?f par))) k
           = Some (set_name (''[DELETED] '' @ name c) c)"
    using c by (simp add: map_of_map_modify)
  have 8: "\<forall>k'. k' \<noteq> k \<longrightarrow> map_of (compoundVal (value' (compound_modify k ?f par))) k'
           = map_of (compoundVal (value' par)) k'"
    by (simp add: map_of_map_modify)
  from 1 5 2 3 6 7 8 4 show ?thesis by blast
qed

text \<open>
  C8 (amended). \<^verbatim>\<open>deleteTag\<close> with the root selected does nothing at all: it returns
  normally, without an error, and the editor (tree, \<^verbatim>\<open>modified\<close>, selection) is the one it
  was given.
\<close>

theorem deleteTag_root_noop: "selectedTag e = Some [] \<Longrightarrow> deleteTag e = Inr e"
  by (simp add: deleteTag_def selected_def split: option.splits)

lemma shown_0:
  "shown fname 0 =
     \<lparr>nbtFile = \<lparr>filename = fname, rootTag = Some load_tree, compressed = True\<rparr>,
      currentRow = 0, scrollOffset = 0, maxVisibleRows = 22, editing = False, editBuffer = [],
      selectedTag = Some [], flatTagList = load_rows, modified = False\<rparr>"
  by (simp add: shown_def started_eq drawEditor_def Let_def load_rows_def)

lemma shown_1:
  "shown fname 1 =
     \<lparr>nbtFile = \<lparr>filename = fname, rootTag = Some load_tree, compressed = True\<rparr>,
      currentRow = 1, scrollOffset = 0, maxVisibleRows = 22, editing = False, editBuffer = [],
      selectedTag = Some [Key ''health''], flatTagList = load_rows, modified = False\<rparr>"
  by (simp add: shown_def started_eq drawEditor_def Let_def load_rows_def handleInput_def
      KEY_DOWN_def KEY_UP_def)

lemma shown_8:
  "shown fname 8 =
     \<lparr>nbtFile = \<lparr>filename = fname, rootTag = Some load_tree, compressed = True\<rparr>,
      currentRow = 8, scrollOffset = 0, maxVisibleRows = 22, editing = False, editBuffer = [],
      selectedTag = Some [Key ''inventory'', Key ''items'', Idx 1, Key ''count''],
      flatTagList = load_rows, modified = False\<rparr>"
  by (simp add: shown_def started_eq drawEditor_def Let_def load_rows_def handleInput_def
      KEY_DOWN_def KEY_UP_def numeral_nat)

theorem deleteTag_root_noop_witness:
  "selectedTag (shown ''level.dat'' 0) = Some []
   \<and> deleteTag (shown ''level.dat'' 0) = Inr (shown ''level.dat'' 0)"
  using deleteTag_root_noop [of "shown ''level.dat'' 0"] by (simp add: shown_0)

theorem deleteTag_root_reports_nothing:
  "selectedTag (shown ''level.dat'' 0) = Some [] \<and> \<not> isl (deleteTag (shown ''level.dat'' 0))"
  by (simp add: shown_0 deleteTag_def selected_def getRoot_def)

theorem deleteTag_keeps_child:
  "selectedTag (shown ''level.dat'' 1) = Some [Key ''health'']
   \<and> (case deleteTag (shown ''level.dat'' 1) of
        Inr e' \<Rightarrow> map fst (compoundVal (value' (the (getRoot e'))))
                   = [''health'', ''inventory'', ''name'', ''position'']
               \<and> map_option name (deref (the (getRoot e')) [Key ''health''])
                   = Some ''[DELETED] health''
      | Inl x \<Rightarrow> False)"
  unfolding shown_1
  by (simp add: deleteTag_def selected_def getRoot_def load_tree_def store_def
      map_value_def compound_modify_def set_compoundVal_def set_name_def)

theorem deleteTag_renames_child_witness:
  "\<exists>e' r' par'. deleteTag (shown ''level.dat'' 1) = Inr e' \<and> modified e' \<and> getRoot e' = Some r'
     \<and> deref r' [] = Some par'
     \<and> map fst (compoundVal (value' par')) = [''health'', ''inventory'', ''name'', ''position'']
     \<and> map_option name (map_of (compoundVal (value' par')) ''health'') = Some ''[DELETED] health''
     \<and> flattenTags (Some r') [] 0 = load_rows"
proof -
  have "getRoot (shown ''level.dat'' 1) = Some load_tree"
    and "selectedTag (shown ''level.dat'' 1) = Some ([] @ [Key ''health''])"
    and "deref load_tree [] = Some load_tree"
    and "map_of (compoundVal (value' load_tree)) ''health''
         = Some (NBTTag FLOAT ''health'' (NBTValue FLOAT 0 0 0 0 0x41A00000 0 [] [] [] [] [] []))"
    unfolding shown_1 by (simp_all add: getRoot_def load_tree_def)
  from deleteTag_renames_child [OF this] show ?thesis
    by (simp add: flattenTags_load_tree) (auto simp: load_tree_def)
qed

section \<open>The parser and the printer of integers\<close>

lemma digit_val_digit_char: "d < 10 \<Longrightarrow> digit_val (digit_char d) = d"
  by (simp add: digit_val_def digit_char_def)

lemma isdigit_digit_char: "d < 10 \<Longrightarrow> isdigit (digit_char d)"
  by (simp add: isdigit_def digit_char_def)

lemma digits_all_digit: "\<forall>c \<in> set (digits n). isdigit c"
proof (induction n rule: digits.induct)
  case (1 n)
  show ?case
  proof (cases "n < 10")
    case True
    then show ?thesis by (simp add: digits.simps [of n] isdigit_digit_char)
  next
    case False
    then show ?thesis using 1 by (simp add: digits.simps [of n] isdigit_digit_char)
  qed
qed

lemma digits_not_Nil: "digits n \<noteq> []"
  by (simp add: digits.simps [of n])

lemma digits_val_snoc: "digits_val (ds @ [c]) = 10 * digits_val ds + digit_val c"
  by (simp add: digits_val_def)

lemma digits_val_digits: "digits_val (digits n) = n"
proof (induction n rule: digits.induct)
  case (1 n)
  show ?case
  proof (cases "n < 10")
    case True
    then show ?thesis by (simp add: digits.simps [of n] digits_val_def digit_val_digit_char)
  next
    case False
    then show ?thesis using 1
      by (simp add: digits.simps [of n] digits_val_snoc digit_val_digit_char)
  qed
qed

lemma isdigit_not_space_sign:
  "isdigit c \<Longrightarrow> \<not> isspace c \<and> c \<noteq> CHR ''-'' \<and> c \<noteq> CHR ''+''"
  by (auto simp: isdigit_def isspace_def)

lemma strtol_digits: "strtol (digits n) = Some (int n)"
proof -
  obtain c cs where d: "digits n = c # cs" using digits_not_Nil [of n] by (cases "digits n") auto
  have all: "\<forall>x \<in> set (c # cs). isdigit x" using digits_all_digit [of n] by (simp add: d)
  then have c: "isdigit c" "\<not> isspace c" "c \<noteq> CHR ''-''" "c \<noteq> CHR ''+''"
    using isdigit_not_space_sign [of c] by simp_all
  from all have tw: "takeWhile isdigit cs = cs" by simp
  have "digits_val (c # cs) = n" using digits_val_digits [of n] by (simp add: d)
  then show ?thesis
    using c by (simp add: strtol_def d Let_def tw)
qed

lemma strtol_minus_digits: "strtol (CHR ''-'' # digits n) = Some (- int n)"
proof -
  have "\<forall>x \<in> set (digits n). isdigit x" by (rule digits_all_digit)
  then have tw: "takeWhile isdigit (digits n) = digits n" by simp
  have "\<not> isspace CHR ''-''" by (simp add: isspace_def)
  then show ?thesis
    using digits_not_Nil [of n] by (simp add: strtol_def Let_def tw digits_val_digits)
qed

text \<open>The parser reads back what \<^verbatim>\<open>std::to_string\<close> prints.\<close>

lemma strtol_to_string: "strtol (to_string i) = Some i"
  by (simp add: to_string_def strtol_digits strtol_minus_digits)

text \<open>It also accepts white space before the number and anything after it.\<close>

lemma stoi_examples:
  "stoi ''7abc'' = Inr 7" "stoi ''  -12 '' = Inr (- 12)" "stoi ''300'' = Inr 300"
  "stoi ''not-a-number'' = Inl invalid_argument" "stoi [] = Inl invalid_argument"
  "stoi ''99999999999'' = Inl out_of_range"
  by (simp_all add: stoi_def strtol_def isspace_def isdigit_def digits_val_def digit_val_def Let_def)

section \<open>Editing a value\<close>

lemma stoi_eq: "strtol s = Some n \<Longrightarrow> - (2 ^ 31) \<le> n \<Longrightarrow> n < 2 ^ 31 \<Longrightarrow> stoi s = Inr n"
  by (simp add: stoi_def)

lemma stoll_eq: "strtol s = Some n \<Longrightarrow> - (2 ^ 63) \<le> n \<Longrightarrow> n < 2 ^ 63 \<Longrightarrow> stoll s = Inr n"
  by (simp add: stoll_def)

lemma editValue_commit:
  assumes "selected e = Some (p, tag)" and "editable (type tag)"
    and "setValueFromString fp input tag = Inr tag'"
  shows "editValue fp OK input e
           = Inr ((store p (\<lambda>_. tag') (e\<lparr>editBuffer := edit_seed fp tag\<rparr>))\<lparr>modified := True\<rparr>)"
  using assms by (auto simp: editValue_def edit_seed_def Let_def)

lemma editValue_reject:
  assumes "selected e = Some (p, tag)" and "editable (type tag)"
    and "setValueFromString fp input tag = Inl x"
  shows "editValue fp result input e = Inr (e\<lparr>editBuffer := edit_seed fp tag\<rparr>)"
  using assms by (auto simp: editValue_def edit_seed_def Let_def)

lemma flattenTags_cong:
  assumes "type t' = type t" and "compoundVal (value' t') = compoundVal (value' t)"
    and "listVal (value' t') = listVal (value' t)"
  shows "flattenTags (Some t') q d = flattenTags (Some t) q d"
  using assms by (simp add: flattenTags.simps(2) [of t] flattenTags.simps(2) [of t'])

lemma setValueFromString_shape:
  assumes "setValueFromString fp str tag = Inr tag'"
  shows "type tag' = type tag \<and> name tag' = name tag
    \<and> compoundVal (value' tag') = compoundVal (value' tag)
    \<and> listVal (value' tag') = listVal (value' tag)"
  using assms
  by (cases "type tag") (auto simp: setValueFromString_def split: sum.splits)

text \<open>
  C4 (amended). When the text does not parse as the kind of the selected scalar or string
  node, so that \<^verbatim>\<open>setValueFromString\<close> raises, \<^verbatim>\<open>editValue\<close> catches the exception and returns
  normally: no error comes out of it. The tree, \<^verbatim>\<open>modified\<close>, \<^verbatim>\<open>editing\<close> and the selection are
  as before; only \<^verbatim>\<open>editBuffer\<close> differs, which keeps the text it was seeded with, the
  node's value.
\<close>

theorem editValue_parse_failure:
  assumes root: "getRoot e = Some r"
    and sel: "selectedTag e = Some p"
    and tag: "deref r p = Some tag"
    and kind: "editable (type tag)"
    and fail: "setValueFromString fp input tag = Inl x"
  shows "editValue fp result input e = Inr (e\<lparr>editBuffer := edit_seed fp tag\<rparr>)"
  using editValue_reject [OF selected_eq [OF root sel tag] kind fail] .

theorem editValue_parse_failure_witness:
  "editValue no_fp OK ''not-a-number'' (shown ''level.dat'' 8)
     = Inr ((shown ''level.dat'' 8)\<lparr>editBuffer := ''5''\<rparr>)"
proof -
  let ?tag = "NBTTag BYTE ''count'' (NBTValue BYTE 5 0 0 0 0 0 [] [] [] [] [] [])"
  have "getRoot (shown ''level.dat'' 8) = Some load_tree"
    and "selectedTag (shown ''level.dat'' 8)
        = Some [Key ''inventory'', Key ''items'', Idx 1, Key ''count'']"
    and "deref load_tree [Key ''inventory'', Key ''items'', Idx 1, Key ''count''] = Some ?tag"
    and "editable (type ?tag)"
    and "setValueFromString no_fp ''not-a-number'' ?tag = Inl invalid_argument"
    by (simp_all add: shown_8 getRoot_def load_tree_def editable_def setValueFromString_def
        stoi_def strtol_def isspace_def isdigit_def Let_def)
  from editValue_parse_failure [OF this, of OK]
  have "editValue no_fp OK ''not-a-number'' (shown ''level.dat'' 8)
      = Inr ((shown ''level.dat'' 8)\<lparr>editBuffer := edit_seed no_fp ?tag\<rparr>)" .
  moreover have "edit_seed no_fp ?tag = ''5''"
    by (simp add: edit_seed_def NBTValue_toString_def to_string_def digits.simps digit_char_def
        char_of_def bit_Suc_0_iff)
  ultimately show ?thesis by simp
qed

theorem editValue_failure_silent:
  "\<not> isl (editValue no_fp OK ''not-a-number'' (shown ''level.dat'' 8))
   \<and> editBuffer (shown ''level.dat'' 8) = []
   \<and> editBuffer (projr (editValue no_fp OK ''not-a-number'' (shown ''level.dat'' 8))) = ''5''"
  by (simp add: shown_8 editValue_def selected_def getRoot_def load_tree_def editable_def
      NBTValue_toString_def to_string_def digits.simps digit_char_def char_of_def bit_Suc_0_iff
      Let_def OK_def
      setValueFromString_def stoi_def strtol_def isspace_def isdigit_def)

text \<open>
  C5. When the selected node is of an integer kind and the text parses to an integer \<open>n\<close>
  in the range of the parser's result type (\<^verbatim>\<open>int\<close> for \<^verbatim>\<open>stoi\<close>, \<^verbatim>\<open>long long\<close> for
  \<^verbatim>\<open>stoll\<close>), \<^verbatim>\<open>editValue\<close> stores \<open>n\<close> truncated to the width of the kind in the field of
  that kind, changes nothing else in the node or in the rest of the tree, and sets
  \<^verbatim>\<open>modified\<close>.
\<close>

theorem editValue_integer_commit:
  assumes root: "getRoot e = Some r"
    and sel: "selectedTag e = Some p"
    and tag: "deref r p = Some tag"
    and kind: "type tag \<in> {BYTE, SHORT, INT_TAG, LONG}"
    and parse: "strtol input = Some n"
    and range: "if type tag = LONG then - (2 ^ 63) \<le> n \<and> n < 2 ^ 63
                else - (2 ^ 31) \<le> n \<and> n < 2 ^ 31"
  shows "\<exists>e' tag'. editValue fp OK input e = Inr e' \<and> modified e'
     \<and> getRoot e' = Some (update p (\<lambda>_. tag') r)
     \<and> deref (update p (\<lambda>_. tag') r) p = Some tag'
     \<and> type tag' = type tag \<and> name tag' = name tag
     \<and> (type tag = BYTE \<longrightarrow> tag' = map_value (set_byteVal (word_of_int n)) tag
           \<and> sint (byteVal (value' tag')) = signed_take_bit 7 n)
     \<and> (type tag = SHORT \<longrightarrow> tag' = map_value (set_shortVal (word_of_int n)) tag
           \<and> sint (shortVal (value' tag')) = signed_take_bit 15 n)
     \<and> (type tag = INT_TAG \<longrightarrow> tag' = map_value (set_intVal (word_of_int n)) tag
           \<and> sint (intVal (value' tag')) = n)
     \<and> (type tag = LONG \<longrightarrow> tag' = map_value (set_longVal (word_of_int n)) tag
           \<and> sint (longVal (value' tag')) = n)
     \<and> flattenTags (Some (update p (\<lambda>_. tag') r)) [] 0 = flattenTags (Some r) [] 0"
proof -
  define tag' where "tag' =
    (if type tag = BYTE then map_value (set_byteVal (word_of_int n)) tag
     else if type tag = SHORT then map_value (set_shortVal (word_of_int n)) tag
     else if type tag = INT_TAG then map_value (set_intVal (word_of_int n)) tag
     else map_value (set_longVal (word_of_int n)) tag)"
  have set: "setValueFromString fp input tag = Inr tag'"
    using kind parse range
    by (auto simp: setValueFromString_def tag'_def stoi_eq stoll_eq)
  have ed: "editable (type tag)" using kind by (auto simp: editable_def)
  from editValue_commit [OF selected_eq [OF root sel tag] ed set]
  obtain buf where e': "editValue fp OK input e
      = Inr ((store p (\<lambda>_. tag') (e\<lparr>editBuffer := buf\<rparr>))\<lparr>modified := True\<rparr>)"
    by blast
  let ?e' = "(store p (\<lambda>_. tag') (e\<lparr>editBuffer := buf\<rparr>))\<lparr>modified := True\<rparr>"
  have 1: "modified ?e'" by simp
  have 2: "getRoot ?e' = Some (update p (\<lambda>_. tag') r)" using root by simp
  have 3: "deref (update p (\<lambda>_. tag') r) p = Some tag'" using tag by (rule deref_update)
  have 4: "type tag' = type tag" "name tag' = name tag" by (simp_all add: tag'_def)
  have 5: "type tag = BYTE \<longrightarrow> tag' = map_value (set_byteVal (word_of_int n)) tag
      \<and> sint (byteVal (value' tag')) = signed_take_bit 7 n"
    by (simp add: tag'_def set_byteVal_def sint_sbintrunc')
  have 6: "type tag = SHORT \<longrightarrow> tag' = map_value (set_shortVal (word_of_int n)) tag
      \<and> sint (shortVal (value' tag')) = signed_take_bit 15 n"
    by (simp add: tag'_def set_shortVal_def sint_sbintrunc')
  have 7: "type tag = INT_TAG \<longrightarrow> tag' = map_value (set_intVal (word_of_int n)) tag
      \<and> sint (intVal (value' tag')) = n"
    using range
    by (auto simp: tag'_def set_intVal_def sint_sbintrunc' signed_take_bit_int_eq_self
        split: if_splits)
  have 8: "type tag = LONG \<longrightarrow> tag' = map_value (set_longVal (word_of_int n)) tag
      \<and> sint (longVal (value' tag')) = n"
    using range
    by (auto simp: tag'_def set_longVal_def sint_sbintrunc' signed_take_bit_int_eq_self
        split: if_splits)
  have 9: "flattenTags (Some (update p (\<lambda>_. tag') r)) [] 0 = flattenTags (Some r) [] 0"
    using setValueFromString_shape [OF set]
    by (intro flattenTags_update_same [OF tag] flattenTags_cong) simp_all
  from e' 1 2 3 4 5 6 7 8 9 show ?thesis by blast
qed

theorem editValue_integer_commit_witness:
  "\<exists>e' tag'. editValue no_fp OK ''7'' (shown ''level.dat'' 8) = Inr e' \<and> modified e'
     \<and> map_option (\<lambda>r'. deref r' [Key ''inventory'', Key ''items'', Idx 1, Key ''count''])
          (getRoot e') = Some (Some tag')
     \<and> type tag' = BYTE \<and> name tag' = ''count'' \<and> sint (byteVal (value' tag')) = 7"
proof -
  have "getRoot (shown ''level.dat'' 8) = Some load_tree"
    and "selectedTag (shown ''level.dat'' 8)
        = Some [Key ''inventory'', Key ''items'', Idx 1, Key ''count'']"
    and "deref load_tree [Key ''inventory'', Key ''items'', Idx 1, Key ''count'']
        = Some (NBTTag BYTE ''count'' (NBTValue BYTE 5 0 0 0 0 0 [] [] [] [] [] []))"
    and "type (NBTTag BYTE ''count'' (NBTValue BYTE 5 0 0 0 0 0 [] [] [] [] [] []))
        \<in> {BYTE, SHORT, INT_TAG, LONG}"
    and "strtol ''7'' = Some 7"
    and "if type (NBTTag BYTE ''count'' (NBTValue BYTE 5 0 0 0 0 0 [] [] [] [] [] [])) = LONG
         then - (2 ^ 63) \<le> (7::int) \<and> (7::int) < 2 ^ 63
         else - (2 ^ 31) \<le> (7::int) \<and> (7::int) < 2 ^ 31"
    by (simp_all add: shown_8 getRoot_def load_tree_def strtol_def isspace_def isdigit_def
        digits_val_def digit_val_def Let_def)
  from editValue_integer_commit [OF this, of no_fp]
  obtain e' tag' where "editValue no_fp OK ''7'' (shown ''level.dat'' 8) = Inr e'"
    and "modified e'"
    and "getRoot e' = Some (update [Key ''inventory'', Key ''items'', Idx 1, Key ''count'']
           (\<lambda>_. tag') load_tree)"
    and "deref (update [Key ''inventory'', Key ''items'', Idx 1, Key ''count''] (\<lambda>_. tag')
           load_tree) [Key ''inventory'', Key ''items'', Idx 1, Key ''count''] = Some tag'"
    and "type tag' = BYTE" and "name tag' = ''count''"
    and "sint (byteVal (value' tag')) = signed_take_bit 7 7"
    by auto
  then show ?thesis
    by (intro exI [of _ e'] exI [of _ tag']) simp
qed

section \<open>Saving and loading\<close>

text \<open>
  C1. \<^verbatim>\<open>save\<close> followed by \<^verbatim>\<open>load\<close> does not give back the tree that was saved: whatever the
  root was, \<^verbatim>\<open>load\<close> puts the tree of its fixed text in its place.
\<close>

theorem save_load_other_tree:
  "fst (save (setRoot (Some other_tree) (new_NBTFile ''level.dat'')))
   \<and> rootTag (snd (load (snd (save (setRoot (Some other_tree) (new_NBTFile ''level.dat''))))))
       = Some load_tree
   \<and> load_tree \<noteq> other_tree"
  by (simp add: save_def load_eq setRoot_def) (simp add: load_tree_def other_tree_def new_NBTTag_def)

section \<open>Adding a tag\<close>

lemmas run_defs =
  started_eq drawEditor_def Let_def load_rows_def handleInput_def KEY_DOWN_def KEY_UP_def key_def
  OK_def addTag_def selected_def getRoot_def refreshTagList_def store_def load_tree_def
  compound_assign_def new_NBTTag_def new_NBTValue_def map_value_def set_compoundVal_def
  set_stringVal_def set_listVal_def flattenTags.simps(2) editValue_def editable_def deleteTag_def
  NBTValue_toString_def substr_def setValueFromString_def compound_modify_def list_modify_def
  set_name_def

text \<open>
  C6. \<^verbatim>\<open>addTag\<close> on a compound that already has a child under the key \<^verbatim>\<open>new_tag\<close>: the first
  item of the inventory, after a tag was added to it and the text of that tag was edited to
  \<^verbatim>\<open>precious\<close>. The second \<^verbatim>\<open>addTag\<close> returns normally, the compound has the same three keys
  as before, and the child under \<^verbatim>\<open>new_tag\<close> holds the placeholder text again.
\<close>

theorem addTag_overwrites_new_tag:
  "(case selected (with_new_tag ''level.dat'') of
      Some (p, tag) \<Rightarrow>
        p = [Key ''inventory'', Key ''items'', Idx 0] \<and> type tag = COMPOUND
        \<and> map fst (compoundVal (value' tag)) = [''count'', ''id'', ''new_tag'']
        \<and> map_option (\<lambda>c. stringVal (value' c)) (map_of (compoundVal (value' tag)) ''new_tag'')
            = Some ''precious''
    | None \<Rightarrow> False)
   \<and> (case handleInput no_fp (key CHR ''a'') (OK, []) (with_new_tag ''level.dat'') of
        Inr e' \<Rightarrow>
          (case selected e' of
             Some (p, tag) \<Rightarrow>
               p = [Key ''inventory'', Key ''items'', Idx 0]
               \<and> map fst (compoundVal (value' tag)) = [''count'', ''id'', ''new_tag'']
               \<and> map_option (\<lambda>c. stringVal (value' c))
                    (map_of (compoundVal (value' tag)) ''new_tag'') = Some ''value''
           | None \<Rightarrow> False)
      | Inl x \<Rightarrow> False)"
  by (simp add: with_new_tag_def run_defs)

section \<open>The order of the projection\<close>

lemma assign_all_snoc: "assign_all (ins @ [(k, c)]) m = map_assign k c (assign_all ins m)"
  by (simp add: assign_all_def)

lemma assign_all_sorted:
  "sorted_wrt (<) (map fst m) \<Longrightarrow> sorted_wrt (<) (map fst (assign_all ins m))"
  by (induction ins rule: rev_induct) (auto simp: assign_all_snoc sorted_map_assign, simp add: assign_all_def)

lemma assign_all_keys:
  "set (map fst (assign_all ins m)) = set (map fst ins) \<union> set (map fst m)"
proof (induction ins rule: rev_induct)
  case Nil
  then show ?case by (simp add: assign_all_def)
next
  case (snoc a ins)
  obtain k c where a: "a = (k, c)" by (cases a)
  show ?case unfolding a assign_all_snoc keys_map_assign using snoc by auto
qed

lemma assign_all_map_of: "map_of (assign_all ins []) = map_of (rev ins)"
proof (induction ins rule: rev_induct)
  case Nil
  then show ?case by (simp add: assign_all_def)
next
  case (snoc a ins)
  obtain k c where a: "a = (k, c)" by (cases a)
  show ?case unfolding a assign_all_snoc map_of_map_assign using snoc by simp
qed

lemma entries_by_keys:
  "distinct (map fst m) \<Longrightarrow> map (\<lambda>k. (k, the (map_of m k))) (map fst m) = m"
proof (induction m)
  case Nil
  then show ?case by simp
next
  case (Cons a m)
  obtain k c where a: "a = (k, c)" by (cases a)
  from Cons.prems have k: "k \<notin> set (map fst m)" and d: "distinct (map fst m)"
    by (simp_all add: a)
  have "map (\<lambda>k'. (k', the (map_of ((k, c) # m) k'))) (map fst m)
        = map (\<lambda>k'. (k', the (map_of m k'))) (map fst m)"
  proof (rule map_cong [OF refl])
    fix k'
    assume "k' \<in> set (map fst m)"
    with k have "k' \<noteq> k" by blast
    then show "(k', the (map_of ((k, c) # m) k')) = (k', the (map_of m k'))" by simp
  qed
  also have "\<dots> = m" using d by (rule Cons.IH)
  finally have "map (\<lambda>k'. (k', the (map_of ((k, c) # m) k'))) (map fst m) = m" .
  then show ?case unfolding a by (simp del: map_map)
qed

lemma assign_all_entries:
  "assign_all ins [] = map (\<lambda>k. (k, the (map_of (rev ins) k)))
     (sorted_list_of_set (set (map fst ins)))"
proof -
  let ?m = "assign_all ins []"
  have s: "sorted_wrt (<) (map fst ?m)" by (rule assign_all_sorted) simp
  then have sd: "sorted (map fst ?m)" "distinct (map fst ?m)"
    by (simp_all add: strict_sorted_iff)
  then have "sorted_list_of_set (set (map fst ?m)) = map fst ?m"
    by (rule sorted_list_of_set.idem_if_sorted_distinct)
  moreover have "set (map fst ?m) = set (map fst ins)"
    using assign_all_keys [of ins "[]"] by simp
  ultimately have "map fst ?m = sorted_list_of_set (set (map fst ins))" by simp
  with entries_by_keys [OF sd(2)] show ?thesis
    by (simp add: assign_all_map_of)
qed

text \<open>
  C2 (amended). The projection is the pre-order walk: the node itself comes first, then
  the subtrees of its children one after the other. The children of a list are taken in
  list order. The children of a compound are taken in ascending order of their keys, not
  in the order in which they were put in: if the map is the result of the assignments
  \<open>ins\<close> made one after the other, each key occurs once, in sorted position, with the node
  assigned to it last. Nodes of other types have no children in the projection.
\<close>

theorem flattenTags_order:
  "(type tag = COMPOUND \<longrightarrow> compoundVal (value' tag) = assign_all ins [] \<longrightarrow>
      flattenTags (Some tag) p d
        = p # concat (map (\<lambda>k. flattenTags (map_of (rev ins) k) (p @ [Key k]) (d + 1))
                       (sorted_list_of_set (set (map fst ins)))))
   \<and> (type tag = LIST \<longrightarrow>
      flattenTags (Some tag) p d
        = p # concat (map (\<lambda>i. flattenTags (Some (listVal (value' tag) ! i)) (p @ [Idx i]) (d + 1))
                       [0..<length (listVal (value' tag))]))
   \<and> (type tag \<noteq> COMPOUND \<longrightarrow> type tag \<noteq> LIST \<longrightarrow> flattenTags (Some tag) p d = [p])"
proof (intro conjI impI)
  assume t: "type tag = COMPOUND" and m: "compoundVal (value' tag) = assign_all ins []"
  let ?keys = "sorted_list_of_set (set (map fst ins))"
  have "k \<in> set ?keys \<Longrightarrow> Some (the (map_of (rev ins) k)) = map_of (rev ins) k" for k
  proof -
    assume "k \<in> set ?keys"
    then have "k \<in> fst ` set (rev ins)" by simp
    then have "map_of (rev ins) k \<noteq> None" by (simp only: map_of_eq_None_iff not_not)
    then show ?thesis by auto
  qed
  then have "map (\<lambda>(k, c). flattenTags (Some c) (p @ [Key k]) (d + 1)) (assign_all ins [])
        = map (\<lambda>k. flattenTags (map_of (rev ins) k) (p @ [Key k]) (d + 1)) ?keys"
    by (subst assign_all_entries) (simp add: comp_def)
  then show "flattenTags (Some tag) p d
      = p # concat (map (\<lambda>k. flattenTags (map_of (rev ins) k) (p @ [Key k]) (d + 1)) ?keys)"
    using t m by (simp add: flattenTags.simps(2) [of tag])
next
  assume "type tag = LIST"
  then show "flattenTags (Some tag) p d
      = p # concat (map (\<lambda>i. flattenTags (Some (listVal (value' tag) ! i)) (p @ [Idx i]) (d + 1))
                     [0..<length (listVal (value' tag))])"
    by (simp add: flattenTags.simps(2) [of tag])
next
  assume "type tag \<noteq> COMPOUND" "type tag \<noteq> LIST"
  then show "flattenTags (Some tag) p d = [p]"
    by (simp add: flattenTags.simps(2) [of tag])
qed

theorem flattenTags_order_witness:
  "flattenTags (Some name_then_health) [] 0
     = [] # concat (map (\<lambda>k. flattenTags
              (map_of [(''health'', new_NBTTag FLOAT ''health''), (''name'', new_NBTTag STRING ''name'')] k)
              [Key k] 1)
            [''health'', ''name''])
   \<and> flattenTags (Some (list_push_back (new_NBTTag DOUBLE []) (new_NBTTag LIST ''position'')))
         [Key ''position''] 1
       = [Key ''position''] # flattenTags (Some (new_NBTTag DOUBLE [])) [Key ''position'', Idx 0] 2
   \<and> flattenTags (Some (new_NBTTag BYTE ''count'')) [Key ''count''] 1 = [[Key ''count'']]"
proof -
  have "type name_then_health = COMPOUND"
    and "compoundVal (value' name_then_health)
         = assign_all [(''name'', new_NBTTag STRING ''name''), (''health'', new_NBTTag FLOAT ''health'')] []"
    by (simp_all add: name_then_health_def assign_all_def)
  with flattenTags_order [of name_then_health
      "[(''name'', new_NBTTag STRING ''name''), (''health'', new_NBTTag FLOAT ''health'')]" "[]" 0]
    flattenTags_order [of "new_NBTTag BYTE ''count''" "[]" "[Key ''count'']" 1]
    flattenTags_order [of "list_push_back (new_NBTTag DOUBLE []) (new_NBTTag LIST ''position'')"
      "[]" "[Key ''position'']" 1]
  show ?thesis unfolding sorted_list_of_set_sort_remdups by (simp add: list_push_back_def)
qed

theorem flattenTags_not_insertion_order:
  "compoundVal (value' name_then_health)
     = assign_all [(''name'', new_NBTTag STRING ''name''), (''health'', new_NBTTag FLOAT ''health'')] []
   \<and> flattenTags (Some name_then_health) [] 0 = [[], [Key ''health''], [Key ''name'']]
   \<and> flattenTags (Some name_then_health) [] 0 \<noteq> [[], [Key ''name''], [Key ''health'']]
   \<and> take 2 (flatTagList (started ''level.dat'')) = [[], [Key ''health'']]"
  by (simp add: name_then_health_def assign_all_def flattenTags.simps(2) started_eq load_rows_def)

section \<open>What every round of the loop preserves\<close>

subsection \<open>The entries of the compounds\<close>

lemma wf_tag_iff:
  "wf_tag tag \<longleftrightarrow>
     sorted_wrt (<) (map fst (compoundVal (value' tag)))
     \<and> (\<forall>(k, c) \<in> set (compoundVal (value' tag)). entry_ok k c \<and> wf_tag c)
     \<and> (\<forall>c \<in> set (listVal (value' tag)). wf_tag c)"
  by (cases tag) simp

lemma wf_tag_cong:
  "compoundVal (value' t') = compoundVal (value' t) \<Longrightarrow> listVal (value' t') = listVal (value' t)
   \<Longrightarrow> wf_tag t' = wf_tag t"
  by (simp add: wf_tag_iff [of t] wf_tag_iff [of t'])

lemma entry_ok_cong: "type c' = type c \<Longrightarrow> name c' = name c \<Longrightarrow> entry_ok k c' = entry_ok k c"
  by (simp add: entry_ok_def)

lemma wf_tag_child:
  "wf_tag tag \<Longrightarrow> child tag s = Some c \<Longrightarrow> wf_tag c"
  by (cases s) (auto simp: wf_tag_iff [of tag] dest!: map_of_SomeD split: if_splits)

lemma wf_tag_deref: "wf_tag r \<Longrightarrow> deref r p = Some t \<Longrightarrow> wf_tag t"
proof (induction p arbitrary: r)
  case Nil
  then show ?case by simp
next
  case (Cons s p)
  then show ?case by (auto split: option.splits dest: wf_tag_child)
qed

lemma set_map_modify:
  "map_of m k = Some c \<Longrightarrow> set (map_modify k g m) \<subseteq> insert (k, g c) (set m)"
proof (induction m)
  case Nil
  then show ?case by simp
next
  case (Cons a m)
  obtain k' c' where a: "a = (k', c')" by (cases a)
  show ?case
  proof (cases "k' = k")
    case True
    then show ?thesis using Cons.prems by (auto simp: a)
  next
    case False
    then have "map_of m k = Some c" using Cons.prems by (simp add: a)
    from Cons.IH [OF this] False show ?thesis by (auto simp: a)
  qed
qed

lemma entry_ok_update:
  assumes "deref c p = Some t" and "\<And>k. entry_ok k t \<Longrightarrow> entry_ok k (f t)" and "entry_ok k c"
  shows "entry_ok k (update p f c)"
proof (cases p)
  case Nil
  then show ?thesis using assms by simp
next
  case (Cons s p')
  then have "p \<noteq> []" by simp
  from update_type_name [OF this, of f c] assms(3) show ?thesis
    by (simp add: entry_ok_def)
qed

lemma wf_tag_update:
  assumes "deref r p = Some t" and "wf_tag r" and "wf_tag (f t)"
    and "\<And>k. entry_ok k t \<Longrightarrow> entry_ok k (f t)"
  shows "wf_tag (update p f r)"
  using assms(1,2)
proof (induction p arbitrary: r)
  case Nil
  then show ?case using assms(3) by simp
next
  case (Cons s p)
  show ?case
  proof (cases s)
    case (Key k)
    with Cons.prems obtain c where c: "map_of (compoundVal (value' r)) k = Some c"
      "deref c p = Some t"
      by (auto split: option.splits)
    from c(1) have mem: "(k, c) \<in> set (compoundVal (value' r))" by (rule map_of_SomeD)
    with Cons.prems(2) have okc: "entry_ok k c" "wf_tag c"
      by (auto simp: wf_tag_iff [of r])
    have 1: "wf_tag (update p f c)" using c(2) okc(2) by (rule Cons.IH)
    have 2: "entry_ok k (update p f c)" using c(2) assms(4) okc(1) by (rule entry_ok_update)
    have "\<forall>(k', c') \<in> set (map_modify k (update p f) (compoundVal (value' r))).
            entry_ok k' c' \<and> wf_tag c'"
      using set_map_modify [OF c(1), of "update p f"] 1 2 Cons.prems(2)
      by (auto simp: wf_tag_iff [of r])
    then show ?thesis using Key Cons.prems(2)
      by (simp add: wf_tag_iff [of "compound_modify k (update p f) r"])
        (simp add: wf_tag_iff [of r])
  next
    case (Idx i)
    with Cons.prems have i: "i < length (listVal (value' r))"
      "deref (listVal (value' r) ! i) p = Some t"
      by (auto split: if_splits)
    let ?c = "listVal (value' r) ! i"
    from i(1) Cons.prems(2) have "wf_tag ?c" by (auto simp: wf_tag_iff [of r])
    with i(2) have 1: "wf_tag (update p f ?c)" by (rule Cons.IH)
    have "\<forall>c' \<in> set ((listVal (value' r))[i := update p f ?c]). wf_tag c'"
      using set_update_subset_insert [of "listVal (value' r)" i "update p f ?c"] 1 Cons.prems(2)
      by (auto simp: wf_tag_iff [of r])
    then show ?thesis using Idx i(1) Cons.prems(2)
      by (simp add: wf_tag_iff [of "list_modify i (update p f) r"])
        (simp add: wf_tag_iff [of r])
  qed
qed

subsection \<open>The number of rows\<close>

lemma length_flattenTags:
  "length (flattenTags t q d) = length (flattenTags t q' d')"
proof (induction t q d arbitrary: q' d' rule: flattenTags.induct)
  case (1 p depth)
  then show ?case by simp
next
  case (2 tag p depth)
  show ?case
  proof (cases "type tag = COMPOUND")
    case True
    have "(\<Sum>x\<leftarrow>compoundVal (value' tag).
              length (flattenTags (Some (snd x)) (p @ [Key (fst x)]) (depth + 1)))
          = (\<Sum>x\<leftarrow>compoundVal (value' tag).
              length (flattenTags (Some (snd x)) (q' @ [Key (fst x)]) (d' + 1)))"
    proof (rule arg_cong [where f = sum_list], rule map_cong [OF refl])
      fix x
      assume "x \<in> set (compoundVal (value' tag))"
      then show "length (flattenTags (Some (snd x)) (p @ [Key (fst x)]) (depth + 1))
                 = length (flattenTags (Some (snd x)) (q' @ [Key (fst x)]) (d' + 1))"
        by (rule "2.IH"(1) [OF True]) simp
    qed
    then show ?thesis using True
      by (simp add: flattenTags.simps(2) [of tag] length_concat comp_def case_prod_unfold)
  next
    case False
    show ?thesis
    proof (cases "type tag = LIST")
      case True
      have "(\<Sum>i\<leftarrow>[0..<length (listVal (value' tag))].
               length (flattenTags (Some (listVal (value' tag) ! i)) (p @ [Idx i]) (depth + 1)))
            = (\<Sum>i\<leftarrow>[0..<length (listVal (value' tag))].
               length (flattenTags (Some (listVal (value' tag) ! i)) (q' @ [Idx i]) (d' + 1)))"
        by (rule arg_cong [where f = sum_list], rule map_cong [OF refl])
          (rule "2.IH"(2) [OF False True])
      then show ?thesis using True False
        by (simp add: flattenTags.simps(2) [of tag] length_concat comp_def)
    next
      case F2: False
      then show ?thesis using False by (simp add: flattenTags.simps(2) [of tag])
    qed
  qed
qed

lemma length_flattenTags_rows: "length (flattenTags (Some t) q d) = rows t"
  unfolding rows_def by (rule length_flattenTags)

lemma rows_unfold:
  "rows tag = Suc (if type tag = COMPOUND then sum_list (map (\<lambda>(k, c). rows c) (compoundVal (value' tag)))
                   else if type tag = LIST then sum_list (map rows (listVal (value' tag)))
                   else 0)"
proof -
  have "map (\<lambda>i. rows (listVal (value' tag) ! i)) [0..<length (listVal (value' tag))]
        = map rows (listVal (value' tag))"
    by (rule nth_equalityI) simp_all
  then show ?thesis
    unfolding rows_def [of tag]
    by (simp add: flattenTags.simps(2) [of tag] length_concat comp_def case_prod_unfold
        length_flattenTags_rows)
qed

lemma sum_map_modify_le:
  assumes "map_of m k = Some c" and "h c \<le> h (g c)"
  shows "sum_list (map (\<lambda>(k, c). h c) m) \<le> sum_list (map (\<lambda>(k, c). (h c :: nat)) (map_modify k g m))"
  using assms(1)
proof (induction m)
  case Nil
  then show ?case by simp
next
  case (Cons a m)
  obtain k' c' where a: "a = (k', c')" by (cases a)
  show ?case
  proof (cases "k' = k")
    case True
    then show ?thesis using Cons.prems assms(2) by (simp add: a)
  next
    case False
    then have "map_of m k = Some c" using Cons.prems by (simp add: a)
    from Cons.IH [OF this] False show ?thesis by (simp add: a)
  qed
qed

lemma sum_list_update_le:
  "i < length l \<Longrightarrow> h (l ! i) \<le> h x \<Longrightarrow> sum_list (map h l) \<le> sum_list (map (h :: 'a \<Rightarrow> nat) (l[i := x]))"
proof (induction l arbitrary: i)
  case Nil
  then show ?case by simp
next
  case (Cons a l)
  then show ?case by (cases i) (simp_all add: add_mono)
qed

lemma sum_map_assign_ge:
  assumes "\<And>c. (k, c) \<in> set m \<Longrightarrow> h c \<le> h v"
  shows "sum_list (map (\<lambda>(k, c). h c) m) \<le> sum_list (map (\<lambda>(k, c). (h c :: nat)) (map_assign k v m))"
  using assms
proof (induction m)
  case Nil
  then show ?case by simp
next
  case (Cons a m)
  obtain k' c' where a: "a = (k', c')" by (cases a)
  have "sum_list (map (\<lambda>(k, c). h c) m) \<le> sum_list (map (\<lambda>(k, c). h c) (map_assign k v m))"
    by (rule Cons.IH) (simp add: Cons.prems)
  moreover have "k = k' \<Longrightarrow> h c' \<le> h v" using Cons.prems [of c'] by (simp add: a)
  ultimately show ?case by (simp add: a)
qed

lemma rows_update_le:
  assumes "deref r p = Some t" and "rows t \<le> rows (f t)"
  shows "rows r \<le> rows (update p f r)"
  using assms(1)
proof (induction p arbitrary: r)
  case Nil
  then show ?case using assms(2) by simp
next
  case (Cons s p)
  show ?case
  proof (cases s)
    case (Key k)
    with Cons.prems obtain c where c: "map_of (compoundVal (value' r)) k = Some c"
      "deref c p = Some t"
      by (auto split: option.splits)
    have "rows c \<le> rows (update p f c)" using c(2) by (rule Cons.IH)
    with c(1) have "sum_list (map (\<lambda>(k, c). rows c) (compoundVal (value' r)))
        \<le> sum_list (map (\<lambda>(k, c). rows c) (map_modify k (update p f) (compoundVal (value' r))))"
      by (rule sum_map_modify_le)
    then show ?thesis using Key
      by (simp add: rows_unfold [of r] rows_unfold [of "compound_modify k (update p f) r"])
  next
    case (Idx i)
    with Cons.prems have i: "i < length (listVal (value' r))"
      "deref (listVal (value' r) ! i) p = Some t"
      by (auto split: if_splits)
    have "rows (listVal (value' r) ! i) \<le> rows (update p f (listVal (value' r) ! i))"
      using i(2) by (rule Cons.IH)
    with i(1) have "sum_list (map rows (listVal (value' r)))
        \<le> sum_list (map rows ((listVal (value' r))[i := update p f (listVal (value' r) ! i)]))"
      by (rule sum_list_update_le)
    then show ?thesis using Idx i(1)
      by (simp add: rows_unfold [of r] rows_unfold [of "list_modify i (update p f) r"])
  qed
qed

lemma rows_compound_assign:
  assumes "wf_tag t" and "type c = STRING"
  shows "rows t \<le> rows (compound_assign ''new_tag'' c t)"
proof -
  have "rows c' \<le> rows c" if "(''new_tag'', c') \<in> set (compoundVal (value' t))" for c'
  proof -
    from that assms(1) have "entry_ok ''new_tag'' c'" by (auto simp: wf_tag_iff [of t])
    then have "type c' = STRING" by (simp add: entry_ok_def)
    then show ?thesis using assms(2) by (simp add: rows_unfold [of c] rows_unfold [of c'])
  qed
  then have "sum_list (map (\<lambda>(k, c). rows c) (compoundVal (value' t)))
      \<le> sum_list (map (\<lambda>(k, c). rows c) (map_assign ''new_tag'' c (compoundVal (value' t))))"
    by (rule sum_map_assign_ge)
  then show ?thesis
    by (simp add: rows_unfold [of t] rows_unfold [of "compound_assign ''new_tag'' c t"])
qed

lemma set_map_assign: "set (map_assign k v m) \<subseteq> insert (k, v) (set m)"
proof (induction m)
  case Nil
  then show ?case by simp
next
  case (Cons a m)
  obtain k' v' where a: "a = (k', v')" by (cases a)
  consider "k < k'" | "\<not> k < k'" "k = k'" | "\<not> k < k'" "k \<noteq> k'" by blast
  then show ?case
  proof cases
    case 1
    then show ?thesis by (simp add: a)
  next
    case 2
    then show ?thesis by (auto simp: a)
  next
    case 3
    then show ?thesis using Cons.IH by (auto simp: a)
  qed
qed

subsection \<open>The invariant of the loop\<close>

text \<open>Every pointer of the projection points to a node of the tree.\<close>

lemma flattenTags_deref:
  assumes "wf_tag t" and "q \<in> set (flattenTags (Some t) pre d)"
  shows "\<exists>q'. q = pre @ q' \<and> deref t q' \<noteq> None"
  using assms
proof (induction t arbitrary: pre d q rule: measure_induct_rule [where f = size])
  case (less t)
  from less.prems(2) consider (root) "q = pre"
    | (comp) k c where "(k, c) \<in> set (compoundVal (value' t))"
        "q \<in> set (flattenTags (Some c) (pre @ [Key k]) (d + 1))"
    | (lst) i where "i < length (listVal (value' t))"
        "q \<in> set (flattenTags (Some (listVal (value' t) ! i)) (pre @ [Idx i]) (d + 1))"
    by (auto simp: flattenTags.simps(2) [of t] split: if_splits)
  then show ?case
  proof cases
    case root
    then show ?thesis by (intro exI [of _ "[]"]) simp
  next
    case comp
    from comp(1) have "size c < size t" by (rule size_compoundVal)
    moreover from comp(1) less.prems(1) have "wf_tag c" by (auto simp: wf_tag_iff [of t])
    ultimately obtain q' where q': "q = (pre @ [Key k]) @ q'" "deref c q' \<noteq> None"
      using less.IH comp(2) by blast
    from less.prems(1) have "distinct (map fst (compoundVal (value' t)))"
      by (simp add: wf_tag_iff [of t] strict_sorted_iff)
    with comp(1) have "map_of (compoundVal (value' t)) k = Some c" by simp
    with q' show ?thesis by (intro exI [of _ "Key k # q'"]) simp
  next
    case lst
    let ?c = "listVal (value' t) ! i"
    from lst(1) have mem: "?c \<in> set (listVal (value' t))" by simp
    then have "size ?c < size t" by (rule size_listVal)
    moreover from mem less.prems(1) have "wf_tag ?c" by (auto simp: wf_tag_iff [of t])
    ultimately obtain q' where q': "q = (pre @ [Idx i]) @ q'" "deref ?c q' \<noteq> None"
      using less.IH lst(2) by blast
    with lst(1) show ?thesis by (intro exI [of _ "Idx i # q'"]) simp
  qed
qed

lemma editor_inv_drawEditor:
  assumes "editor_inv e"
  shows "editor_inv (drawEditor maxY e)"
proof -
  from assms obtain r where r: "getRoot e = Some r" "wf_tag r"
    "flatTagList e = flattenTags (Some r) [] 0"
    "0 \<le> currentRow e" "currentRow e < int (length (flatTagList e))"
    "\<forall>p. selectedTag e = Some p \<longrightarrow> deref r p \<noteq> None"
    by (auto simp: editor_inv_def)
  from r(4,5) have "flatTagList e ! nat (currentRow e) \<in> set (flattenTags (Some r) [] 0)"
    unfolding r(3) [symmetric] by (intro nth_mem) simp
  with flattenTags_deref [OF r(2)] have "deref r (flatTagList e ! nat (currentRow e)) \<noteq> None"
    by fastforce
  with r show ?thesis
    by (auto simp: editor_inv_def drawEditor_def Let_def)
qed

lemma selectedD:
  "selected e = Some (p, tag) \<Longrightarrow> \<exists>r. getRoot e = Some r \<and> deref r p = Some tag"
  by (auto simp: selected_def split: option.splits)

lemma selected_ptr: "selected e = Some (p, tag) \<Longrightarrow> selectedTag e = Some p"
  by (auto simp: selected_def split: option.splits)

lemma editor_inv_store:
  assumes inv: "editor_inv e" and sel: "selected e = Some (p, tag)"
    and f: "type (f tag) = type tag" "compoundVal (value' (f tag)) = compoundVal (value' tag)"
      "listVal (value' (f tag)) = listVal (value' tag)"
    and ok: "\<And>k. entry_ok k tag \<Longrightarrow> entry_ok k (f tag)"
  shows "editor_inv (store p f e)"
proof -
  from inv obtain r where r: "getRoot e = Some r" "wf_tag r"
    "flatTagList e = flattenTags (Some r) [] 0"
    "0 \<le> currentRow e" "currentRow e < int (length (flatTagList e))"
    by (auto simp: editor_inv_def)
  from selectedD [OF sel] r(1) have d: "deref r p = Some tag" by auto
  from sel have sp: "selectedTag e = Some p" by (rule selected_ptr)
  have "wf_tag tag" using r(2) d by (rule wf_tag_deref)
  then have "wf_tag (f tag)" using f by (simp add: wf_tag_cong [of "f tag" tag])
  with d r(2) have 1: "wf_tag (update p f r)" using ok by (rule wf_tag_update)
  have 2: "flattenTags (Some (update p f r)) [] 0 = flattenTags (Some r) [] 0"
    using d by (rule flattenTags_update_same) (rule flattenTags_cong [OF f])
  have 3: "deref (update p f r) p \<noteq> None" using deref_update [OF d, of f] by simp
  show ?thesis using r 1 2 3 sp by (simp add: editor_inv_def)
qed

lemma selected_editBuffer [simp]: "selected (e\<lparr>editBuffer := b\<rparr>) = selected e"
  by (auto simp: selected_def split: option.splits)

lemma editValue_not_editable:
  "selected e = Some (p, tag) \<Longrightarrow> \<not> editable (type tag) \<Longrightarrow> editValue fp result input e = Inr e"
  by (simp add: editValue_def)

lemma editValue_not_OK:
  "selected e = Some (p, tag) \<Longrightarrow> editable (type tag) \<Longrightarrow> result \<noteq> OK
   \<Longrightarrow> editValue fp result input e = Inr (e\<lparr>editBuffer := edit_seed fp tag\<rparr>)"
  by (auto simp: editValue_def edit_seed_def Let_def)

lemma editor_inv_editValue:
  assumes "editor_inv e" and "editValue fp result input e = Inr e'"
  shows "editor_inv e'"
proof (cases "selected e")
  case None
  then show ?thesis using assms by (simp add: editValue_def)
next
  case (Some a)
  obtain p tag where a: "a = (p, tag)" by (cases a)
  note sel = Some [unfolded a]
  have inv_buf: "editor_inv (e\<lparr>editBuffer := b\<rparr>)" for b
    using assms(1) by (simp add: editor_inv_def)
  consider "\<not> editable (type tag)" | "editable (type tag)" "result \<noteq> OK"
    | x where "editable (type tag)" "result = OK" "setValueFromString fp input tag = Inl x"
    | tag' where "editable (type tag)" "result = OK" "setValueFromString fp input tag = Inr tag'"
    by (cases "setValueFromString fp input tag") auto
  then show ?thesis
  proof cases
    case 1
    with editValue_not_editable [OF sel 1, of fp result input] assms show ?thesis by simp
  next
    case 2
    with editValue_not_OK [OF sel 2, of fp input] assms(2) inv_buf show ?thesis by auto
  next
    case 3
    with editValue_reject [OF sel 3(1,3), of result] assms(2) inv_buf show ?thesis by auto
  next
    case 4
    from editValue_commit [OF sel 4(1,3)] 4(2) assms(2)
    obtain b where e': "e' = (store p (\<lambda>_. tag') (e\<lparr>editBuffer := b\<rparr>))\<lparr>modified := True\<rparr>"
      by auto
    have sel': "selected (e\<lparr>editBuffer := b\<rparr>) = Some (p, tag)"
      using sel by simp
    note sh = setValueFromString_shape [OF 4(3)]
    have "editor_inv (store p (\<lambda>_. tag') (e\<lparr>editBuffer := b\<rparr>))"
      using inv_buf sel'
    proof (rule editor_inv_store)
      show "entry_ok k tag \<Longrightarrow> entry_ok k tag'" for k
        using sh by (simp add: entry_ok_def)
    qed (simp_all add: sh)
    then show ?thesis unfolding e' by (simp add: editor_inv_def)
  qed
qed

lemma editor_inv_deleteTag:
  assumes "editor_inv e" and "deleteTag e = Inr e'"
  shows "editor_inv e'"
proof (cases "selected e")
  case None
  then show ?thesis using assms by (simp add: deleteTag_def)
next
  case (Some a)
  obtain p tag where a: "a = (p, tag)" by (cases a)
  let ?f = "\<lambda>t. set_name (''[DELETED] '' @ name t) t"
  have "editor_inv (store p ?f e)"
    using assms(1) Some [unfolded a]
  proof (rule editor_inv_store)
    fix k
    assume "entry_ok k tag"
    then obtain n where "name tag = marks n k" and t: "k = ''new_tag'' \<longrightarrow> type tag = STRING"
      by (auto simp: entry_ok_def)
    then have "name (?f tag) = marks (Suc n) k" by simp
    then show "entry_ok k (?f tag)" using t unfolding entry_ok_def by (metis sel_set_name(1))
  qed simp_all
  then have "editor_inv ((store p ?f e)\<lparr>modified := True\<rparr>)" by (simp add: editor_inv_def)
  then show ?thesis using assms Some a by (cases "p = []") (simp_all add: deleteTag_def)
qed

lemma editor_inv_addTag:
  assumes "editor_inv e" and "addTag e = Inr e'"
  shows "editor_inv e'"
proof (cases "selected e")
  case None
  then show ?thesis using assms by (simp add: addTag_def)
next
  case (Some a)
  obtain p tag where a: "a = (p, tag)" by (cases a)
  show ?thesis
  proof (cases "type tag = COMPOUND")
    case False
    then show ?thesis using assms Some a by (simp add: addTag_def)
  next
    case True
    let ?new = "map_value (set_stringVal ''value'') (new_NBTTag STRING ''new_tag'')"
    let ?f = "compound_assign ''new_tag'' ?new"
    from assms(1) obtain r where r: "getRoot e = Some r" "wf_tag r"
      "flatTagList e = flattenTags (Some r) [] 0"
      "0 \<le> currentRow e" "currentRow e < int (length (flatTagList e))"
      by (auto simp: editor_inv_def)
    from selectedD [OF Some [unfolded a]] r(1) have d: "deref r p = Some tag" by auto
    have wt: "wf_tag tag" using r(2) d by (rule wf_tag_deref)
    have e': "e' = (refreshTagList (store p ?f e))\<lparr>modified := True\<rparr>"
      using assms(2) Some a True by (simp add: addTag_def Let_def)
    have new: "entry_ok ''new_tag'' ?new" "wf_tag ?new"
      unfolding entry_ok_def by (auto simp: wf_tag_iff [of ?new] intro: exI [of _ 0])
    have "wf_tag (?f tag)"
      using set_map_assign [of "''new_tag''" ?new "compoundVal (value' tag)"] wt new
        sorted_map_assign [of "compoundVal (value' tag)" "''new_tag''" ?new]
      by (simp add: wf_tag_iff [of "?f tag"]) (auto simp: wf_tag_iff [of tag])
    with d r(2) have 1: "wf_tag (update p ?f r)"
      by (rule wf_tag_update) (simp add: entry_ok_def)
    have "rows r \<le> rows (update p ?f r)"
      using d by (rule rows_update_le) (rule rows_compound_assign [OF wt], simp)
    then have 2: "currentRow e < int (length (flattenTags (Some (update p ?f r)) [] 0))"
      using r(3,5) by (simp add: length_flattenTags_rows)
    have 3: "deref (update p ?f r) p \<noteq> None" using deref_update [OF d, of ?f] by simp
    show ?thesis unfolding e' using r 1 2 3 selected_ptr [OF Some [unfolded a]]
      by (simp add: editor_inv_def refreshTagList_def)
  qed
qed

lemma editor_inv_handleInput:
  assumes "editor_inv e" and "handleInput fp ch typed e = Inr e'"
  shows "editor_inv e'"
proof -
  consider (up) "ch = KEY_UP" | (down) "ch \<noteq> KEY_UP" "ch = KEY_DOWN"
    | (edit) "ch \<noteq> KEY_UP" "ch \<noteq> KEY_DOWN" "ch = key CHR ''e'' \<or> ch = key CHR ''E''"
    | (add) "ch \<noteq> KEY_UP" "ch \<noteq> KEY_DOWN" "\<not> (ch = key CHR ''e'' \<or> ch = key CHR ''E'')"
        "ch = key CHR ''a'' \<or> ch = key CHR ''A''"
    | (del) "ch \<noteq> KEY_UP" "ch \<noteq> KEY_DOWN" "\<not> (ch = key CHR ''e'' \<or> ch = key CHR ''E'')"
        "\<not> (ch = key CHR ''a'' \<or> ch = key CHR ''A'')" "ch = key CHR ''d'' \<or> ch = key CHR ''D''"
    | (save) "ch \<noteq> KEY_UP" "ch \<noteq> KEY_DOWN" "\<not> (ch = key CHR ''e'' \<or> ch = key CHR ''E'')"
        "\<not> (ch = key CHR ''a'' \<or> ch = key CHR ''A'')" "\<not> (ch = key CHR ''d'' \<or> ch = key CHR ''D'')"
        "ch = key CHR ''s'' \<or> ch = key CHR ''S''"
    | (other) "ch \<noteq> KEY_UP" "ch \<noteq> KEY_DOWN" "\<not> (ch = key CHR ''e'' \<or> ch = key CHR ''E'')"
        "\<not> (ch = key CHR ''a'' \<or> ch = key CHR ''A'')" "\<not> (ch = key CHR ''d'' \<or> ch = key CHR ''D'')"
        "\<not> (ch = key CHR ''s'' \<or> ch = key CHR ''S'')"
    by blast
  then show ?thesis
  proof cases
    case up
    then have "e' = (if currentRow e > 0 then e\<lparr>currentRow := currentRow e - 1\<rparr> else e)"
      using assms(2) by (simp add: handleInput_def)
    then show ?thesis using assms(1) by (auto simp: editor_inv_def)
  next
    case down
    then have "e' = (if currentRow e < int (length (flatTagList e)) - 1
                     then e\<lparr>currentRow := currentRow e + 1\<rparr> else e)"
      using assms(2) by (simp add: handleInput_def)
    then show ?thesis using assms(1) by (auto simp: editor_inv_def)
  next
    case edit
    then have "editValue fp (fst typed) (snd typed) e = Inr e'"
      using assms(2) by (simp add: handleInput_def)
    with assms(1) show ?thesis by (rule editor_inv_editValue)
  next
    case add
    then have "addTag e = Inr e'"
      using assms(2) by (simp add: handleInput_def)
    with assms(1) show ?thesis by (rule editor_inv_addTag)
  next
    case del
    then have "deleteTag e = Inr e'"
      using assms(2) by (simp add: handleInput_def)
    with assms(1) show ?thesis by (rule editor_inv_deleteTag)
  next
    case save
    then have "saveChanges e = Inr e'"
      using assms(2) by (simp add: handleInput_def)
    then have "e' = e\<lparr>modified := False\<rparr>"
      by (auto simp: saveChanges_def save_def)
    then show ?thesis using assms(1) by (simp add: editor_inv_def)
  next
    case other
    then have "e' = e" using assms(2) by (simp add: handleInput_def)
    then show ?thesis using assms(1) by simp
  qed
qed

lemma editor_inv_started: "editor_inv (started fname)"
proof -
  have ok: "entry_ok k c" if "name c = k" "k \<noteq> ''new_tag''" for k c
    using that unfolding entry_ok_def by (auto intro: exI [of _ 0])
  have "wf_tag load_tree"
    by (simp add: load_tree_def ok)
  then show ?thesis
    by (simp add: editor_inv_def started_eq getRoot_def flattenTags_load_tree load_rows_def)
qed

lemma reachable_inv: "reachable fp e \<Longrightarrow> editor_inv e"
  by (induction rule: reachable.induct)
    (auto intro: editor_inv_started editor_inv_handleInput editor_inv_drawEditor)

text \<open>
  So the pointers the program holds always point into the tree, and the association lists
  are the maps they stand for.
\<close>

lemma reachable_selected:
  assumes "reachable fp e" and "selectedTag e = Some p"
  shows "\<exists>tag. selected e = Some (p, tag)"
  using reachable_inv [OF assms(1)] assms(2)
  by (auto simp: editor_inv_def selected_def)

lemma reachable_sorted:
  assumes "reachable fp e" and "getRoot e = Some r" and "deref r p = Some tag"
  shows "sorted_wrt (<) (map fst (compoundVal (value' tag)))"
proof -
  from reachable_inv [OF assms(1)] assms(2) have "wf_tag r" by (auto simp: editor_inv_def)
  then have "wf_tag tag" using assms(3) by (rule wf_tag_deref)
  then show ?thesis by (simp add: wf_tag_iff [of tag])
qed

section \<open>The editors the loop reaches\<close>

text \<open>No handler lets an exception out, so every key has a next editor.\<close>

lemma handleInput_returns: "\<exists>e'. handleInput fp ch typed e = Inr e'"
proof -
  have "\<exists>e'. editValue fp result input e = Inr e'" for result input
    by (cases "selected e"; cases "setValueFromString fp input (snd (the (selected e)))")
      (auto simp: editValue_def Let_def)
  moreover have "\<exists>e'. addTag e = Inr e'"
    by (cases "selected e") (auto simp: addTag_def Let_def)
  moreover have "\<exists>e'. deleteTag e = Inr e'"
    by (cases "selected e") (auto simp: deleteTag_def)
  moreover have "\<exists>e'. saveChanges e = Inr e'"
    by (simp add: saveChanges_def save_def)
  ultimately show ?thesis by (simp add: handleInput_def)
qed

lemma reachable_rounds:
  assumes "reachable fp e"
    and "\<forall>k \<in> set ks. fst k \<noteq> key CHR ''q'' \<and> fst k \<noteq> key CHR ''Q''"
  shows "reachable fp (rounds fp maxY ks e)"
  using assms
proof (induction ks arbitrary: e)
  case Nil
  then show ?case by simp
next
  case (Cons k ks)
  obtain ch typed where k: "k = (ch, typed)" by (cases k)
  show ?case
  proof (cases "handleInput fp ch typed (drawEditor maxY e)")
    case (Inl x)
    then show ?thesis using Cons.prems(1) by (simp add: k)
  next
    case (Inr e')
    from Cons.prems(2) have "ch \<noteq> key CHR ''q''" "ch \<noteq> key CHR ''Q''" by (simp_all add: k)
    with Cons.prems(1) have "reachable fp e'" using Inr by (rule reachable.round)
    then have "reachable fp (rounds fp maxY ks e')" using Cons.prems(2) by (intro Cons.IH) simp_all
    then show ?thesis using Inr by (simp add: k)
  qed
qed

lemma currentRow_drawEditor [simp]: "currentRow (drawEditor maxY e) = currentRow e"
  and flatTagList_drawEditor [simp]: "flatTagList (drawEditor maxY e) = flatTagList e"
  by (simp_all add: drawEditor_def Let_def)

text \<open>
  C7. At the head of every round of the loop the selection index lies within the
  projection, which is the projection of the current tree: \<open>0 \<le> currentRow\<close> and
  \<open>currentRow < length flatTagList\<close>. With the index at 0 the up key leaves the editor as it
  is, and with the index at the last row the down key leaves it as it is.
\<close>

theorem currentRow_in_bounds:
  assumes "reachable fp e"
  shows "0 \<le> currentRow e \<and> currentRow e < int (length (flatTagList e))
    \<and> flatTagList e = flattenTags (getRoot e) [] 0
    \<and> (currentRow e = 0 \<longrightarrow>
         handleInput fp KEY_UP typed (drawEditor maxY e) = Inr (drawEditor maxY e))
    \<and> (currentRow e = int (length (flatTagList e)) - 1 \<longrightarrow>
         handleInput fp KEY_DOWN typed (drawEditor maxY e) = Inr (drawEditor maxY e))"
proof -
  from reachable_inv [OF assms] show ?thesis
    by (auto simp: editor_inv_def handleInput_def KEY_UP_def KEY_DOWN_def)
qed

theorem currentRow_in_bounds_witness:
  "0 \<le> currentRow (health_deleted ''level.dat'')
   \<and> currentRow (health_deleted ''level.dat'') < int (length (flatTagList (health_deleted ''level.dat'')))
   \<and> currentRow (started ''level.dat'') = 0
   \<and> handleInput no_fp KEY_UP (OK, []) (drawEditor 24 (started ''level.dat''))
       = Inr (drawEditor 24 (started ''level.dat''))"
proof -
  have 1: "reachable no_fp (started ''level.dat'')" by (rule reachable.start)
  then have 2: "reachable no_fp (health_deleted ''level.dat'')"
    unfolding health_deleted_def by (rule reachable_rounds) (simp add: key_def KEY_DOWN_def)
  have 3: "currentRow (started ''level.dat'') = 0" by (simp add: started_eq)
  have "0 \<le> currentRow (health_deleted ''level.dat'')
      \<and> currentRow (health_deleted ''level.dat'')
          < int (length (flatTagList (health_deleted ''level.dat'')))"
    using currentRow_in_bounds [OF 2, of "(OK, [])" 24] by blast
  moreover have "handleInput no_fp KEY_UP (OK, []) (drawEditor 24 (started ''level.dat''))
       = Inr (drawEditor 24 (started ''level.dat''))"
    using currentRow_in_bounds [OF 1, of "(OK, [])" 24] 3 by blast
  ultimately show ?thesis using 3 by blast
qed

text \<open>
  C10 (amended). In every tree at the head of a round of the loop, a child stored in a
  compound's collection under the key \<open>k\<close> has as its name \<open>k\<close> with \<^verbatim>\<open>[DELETED] \<close> put before
  it some number of times, possibly none: \<^verbatim>\<open>load\<close> and \<^verbatim>\<open>addTag\<close> store a child under its
  name, \<^verbatim>\<open>editValue\<close> changes neither, and every \<^verbatim>\<open>deleteTag\<close> on the child adds one mark to
  the name and leaves the key.
\<close>

theorem compound_key_and_name:
  assumes "reachable fp e" and "getRoot e = Some r" and "deref r p = Some tag"
    and "(k, c) \<in> set (compoundVal (value' tag))"
  shows "\<exists>n. name c = marks n k"
proof -
  from reachable_inv [OF assms(1)] assms(2) have "wf_tag r" by (auto simp: editor_inv_def)
  then have "wf_tag tag" using assms(3) by (rule wf_tag_deref)
  with assms(4) have "entry_ok k c" by (auto simp: wf_tag_iff [of tag])
  then show ?thesis by (simp add: entry_ok_def)
qed

lemma health_deleted_root:
  "getRoot (health_deleted fname)
     = Some (compound_modify ''health'' (set_name ''[DELETED] health'') load_tree)"
  by (simp add: health_deleted_def started_eq drawEditor_def Let_def handleInput_def KEY_DOWN_def
      KEY_UP_def key_def OK_def deleteTag_def selected_def getRoot_def load_rows_def store_def
      load_tree_def compound_modify_def map_value_def set_compoundVal_def set_name_def)

theorem compound_key_and_name_witness:
  "reachable no_fp (health_deleted ''level.dat'')
   \<and> (''health'', set_name ''[DELETED] health''
         (NBTTag FLOAT ''health'' (NBTValue FLOAT 0 0 0 0 0x41A00000 0 [] [] [] [] [] [])))
       \<in> set (compoundVal (value' (the (getRoot (health_deleted ''level.dat'')))))
   \<and> (\<exists>n. ''[DELETED] health'' = marks n ''health'')"
proof -
  have 1: "reachable no_fp (health_deleted ''level.dat'')"
    unfolding health_deleted_def
    by (rule reachable_rounds [OF reachable.start]) (simp add: key_def KEY_DOWN_def)
  let ?r = "compound_modify ''health'' (set_name ''[DELETED] health'') load_tree"
  let ?c = "set_name ''[DELETED] health''
      (NBTTag FLOAT ''health'' (NBTValue FLOAT 0 0 0 0 0x41A00000 0 [] [] [] [] [] []))"
  have 2: "deref ?r [] = Some ?r" by simp
  have 3: "(''health'', ?c) \<in> set (compoundVal (value' ?r))"
    by (simp add: load_tree_def)
  from compound_key_and_name [OF 1 health_deleted_root 2 3] 1 3 show ?thesis
    by (simp add: health_deleted_root)
qed

theorem deleted_child_key_differs:
  "reachable no_fp (health_deleted ''level.dat'')
   \<and> map_option name
        (map_of (compoundVal (value' (the (getRoot (health_deleted ''level.dat''))))) ''health'')
       = Some ''[DELETED] health''"
proof
  show "reachable no_fp (health_deleted ''level.dat'')"
    unfolding health_deleted_def
    by (rule reachable_rounds [OF reachable.start]) (simp add: key_def KEY_DOWN_def)
  show "map_option name
        (map_of (compoundVal (value' (the (getRoot (health_deleted ''level.dat''))))) ''health'')
       = Some ''[DELETED] health''"
    by (simp add: health_deleted_root) (simp add: load_tree_def map_of_map_modify)
qed

end
